theory Spec2Isabelle
  imports Main
begin

section \<open>Data model of same.js\<close>

text \<open>
  A cell of the board is the object \<^verbatim>\<open>{ color, cluster }\<close>. Its colour is a palette
  entry (a string), \<^verbatim>\<open>null\<close> for an emptied cell, or \<^verbatim>\<open>undefined\<close> when
  \<^verbatim>\<open>randomBoard\<close> indexes past the end of \<^verbatim>\<open>color_vocab\<close>. A cluster is an array of
  \<^verbatim>\<open>[x, y]\<close> pairs; the coordinates are JavaScript numbers that the flood fill
  decrements below zero, hence integers.

  Outside \<^verbatim>\<open>updateClusters\<close> no array is ever pushed to, so a cell (and
  \<^verbatim>\<open>hoverCluster\<close>) holds the contents of its array. Inside \<^verbatim>\<open>updateClusters\<close>
  the arrays are shared and grow, and live in an explicit store.

  The board is \<^verbatim>\<open>this.width\<close> columns of \<^verbatim>\<open>this.height\<close> cells: \<^verbatim>\<open>randomBoard\<close>
  builds it so and \<^verbatim>\<open>handleClick\<close> refills every column it shortens
  (\<open>wellShaped\<close> below).
\<close>

datatype color = Null | Undefined | Named string

type_synonym coord = "int \<times> int"

record cell =
  color :: color
  cluster :: "coord list"

datatype error = TypeError

record game =
  ncolors :: int
  width :: nat
  height :: nat
  color_vocab :: "string list"
  hoverCluster :: "coord list"
  score :: int
  numCells :: int
  board :: "cell list list"
  scoreLeft :: int
  scoreTotal :: int
  hoverScore :: int

text \<open>
  \<open>hoverScore\<close> is the number shown in the element \<^verbatim>\<open>#hover\<close>. The other texts of the
  page repeat \<open>score\<close>, \<open>scoreLeft\<close> and \<open>scoreTotal\<close>; the table cells and their CSS
  classes are not modelled. A handler that throws leaves the session as it stood at the
  throw: the error carries that state.
\<close>

type_synonym outcome = "(error \<times> game) + game"

definition emptyCell :: cell where
  "emptyCell = \<lparr>color = Null, cluster = []\<rparr>"

text \<open>\<^verbatim>\<open>this.board[ox][oy]\<close> for coordinates that need not lie on the board: a missing
  column or a missing cell is \<open>None\<close>, where JavaScript reads \<^verbatim>\<open>undefined\<close> and the
  next property access throws.\<close>

definition cellAt :: "'a list list \<Rightarrow> int \<Rightarrow> int \<Rightarrow> 'a option" where
  "cellAt b ox oy =
     (if 0 \<le> ox \<and> nat ox < length b \<and> 0 \<le> oy \<and> nat oy < length (b ! nat ox)
      then Some (b ! nat ox ! nat oy) else None)"

subsection \<open>randomBoard\<close>

text \<open>\<open>rnd x y\<close> is the value of \<^verbatim>\<open>Math.floor(Math.random() * this.ncolors)\<close> drawn for
  the cell of column \<open>x\<close> and row \<open>y\<close>.\<close>

definition vocabAt :: "string list \<Rightarrow> int \<Rightarrow> color" where
  "vocabAt v i = (if 0 \<le> i \<and> nat i < length v then Named (v ! nat i) else Undefined)"

definition randomBoard :: "(nat \<Rightarrow> nat \<Rightarrow> int) \<Rightarrow> game \<Rightarrow> cell list list" where
  "randomBoard rnd g =
     map (\<lambda>x. map (\<lambda>y. \<lparr>color = vocabAt (color_vocab g) (rnd x y), cluster = []\<rparr>)
                  [0..<height g])
         [0..<width g]"

subsection \<open>updateClusters\<close>

text \<open>
  During the recount a cell's \<^verbatim>\<open>cluster\<close> field is \<^verbatim>\<open>undefined\<close> or a reference
  into the store of arrays; \<open>fresh\<close> below is the next unused reference, taken by each
  \<^verbatim>\<open>cell.cluster = []\<close>.
\<close>

record rcell =
  rcolor :: color
  rcluster :: "nat option"

type_synonym store = "nat \<Rightarrow> coord list"

definition setCluster :: "rcell list list \<Rightarrow> nat \<Rightarrow> nat \<Rightarrow> nat \<Rightarrow> rcell list list" where
  "setCluster b x y r = b[x := (b ! x)[y := (b ! x ! y)\<lparr>rcluster := Some r\<rparr>]]"

text \<open>\<^verbatim>\<open>neighbor.cluster && neighbor.cluster.length\<close>\<close>

definition hasCluster :: "store \<Rightarrow> rcell \<Rightarrow> bool" where
  "hasCluster st c = (case rcluster c of None \<Rightarrow> False | Some q \<Rightarrow> st q \<noteq> [])"

definition unclaimed :: "rcell list list \<Rightarrow> store \<Rightarrow> (nat \<times> nat) set" where
  "unclaimed b st = {(x, y). x < length b \<and> y < length (b ! x) \<and> \<not> hasCluster st (b ! x ! y)}"

text \<open>
  The \<^verbatim>\<open>while (toVisit.length > 0)\<close> loop. The stack \<^verbatim>\<open>toVisit\<close> is a list whose head
  is the top: \<^verbatim>\<open>pop\<close> takes the head, and the four pushes leave \<^verbatim>\<open>[ox, oy + 1]\<close> on
  top. \<open>col\<close> is \<^verbatim>\<open>cell.color\<close> and \<open>r\<close> the array \<^verbatim>\<open>cell.cluster\<close> of the cell the
  search started from; neither changes while the loop runs.
\<close>

function dfs :: "nat \<Rightarrow> nat \<Rightarrow> color \<Rightarrow> nat \<Rightarrow> coord list \<Rightarrow> rcell list list \<Rightarrow> store
                  \<Rightarrow> error + (rcell list list \<times> store)" where
  "dfs w h col r [] b st = Inr (b, st)"
| "dfs w h col r ((ox, oy) # toVisit) b st =
     (if oy < 0 \<or> oy = int h \<or> ox < 0 \<or> ox = int w then dfs w h col r toVisit b st
      else case cellAt b ox oy of
        None \<Rightarrow> Inl TypeError
      | Some neighbor \<Rightarrow>
          if hasCluster st neighbor then dfs w h col r toVisit b st
          else if col = rcolor neighbor
          then dfs w h col r
                 ((ox, oy + 1) # (ox, oy - 1) # (ox + 1, oy) # (ox - 1, oy) # toVisit)
                 (setCluster b (nat ox) (nat oy) r) (st(r := st r @ [(ox, oy)]))
          else dfs w h col r toVisit b st)"
  by pat_completeness auto

lemma finite_unclaimed: "finite (unclaimed b st)"
proof -
  have "unclaimed b st \<subseteq> (SIGMA x:{..<length b}. {..<length (b ! x)})"
    by (auto simp: unclaimed_def)
  then show ?thesis
    by (rule finite_subset) auto
qed

lemma setCluster_length [simp]: "length (setCluster b x y r) = length b"
  by (simp add: setCluster_def)

lemma setCluster_col_length [simp]: "length (setCluster b x y r ! i) = length (b ! i)"
proof (cases "x < length b")
  case True
  then show ?thesis by (cases "i = x") (simp_all add: setCluster_def)
next
  case False
  then have "b[x := (b ! x)[y := (b ! x ! y)\<lparr>rcluster := Some r\<rparr>]] = b"
    by (intro list_update_beyond) simp
  then show ?thesis by (simp add: setCluster_def)
qed

lemma setCluster_nth:
  "i < length b \<Longrightarrow> j < length (b ! i) \<Longrightarrow>
   setCluster b x y r ! i ! j = (if i = x \<and> j = y then (b ! x ! y)\<lparr>rcluster := Some r\<rparr> else b ! i ! j)"
proof (cases "i = x")
  case True
  assume "i < length b" "j < length (b ! i)"
  with True show ?thesis by (simp add: setCluster_def nth_list_update)
next
  case False
  assume "i < length b"
  with False show ?thesis by (simp add: setCluster_def)
qed

lemma unclaimed_push:
  assumes "cellAt b ox oy = Some c" and "\<not> hasCluster st c"
  shows "unclaimed (setCluster b (nat ox) (nat oy) r) (st(r := st r @ [(ox, oy)])) \<subset> unclaimed b st"
proof -
  let ?b = "setCluster b (nat ox) (nat oy) r" and ?st = "st(r := st r @ [(ox, oy)])"
  from assms(1) have rng: "nat ox < length b" "nat oy < length (b ! nat ox)"
    and c: "c = b ! nat ox ! nat oy"
    by (auto simp: cellAt_def split: if_splits)
  have mono: "hasCluster st d \<Longrightarrow> hasCluster ?st d" for d
    by (auto simp: hasCluster_def split: option.splits)
  have "unclaimed ?b ?st \<subseteq> unclaimed b st"
  proof
    fix p assume p: "p \<in> unclaimed ?b ?st"
    obtain i j where ij: "p = (i, j)" by (cases p)
    from p ij have i: "i < length b" and j: "j < length (b ! i)"
      and un: "\<not> hasCluster ?st (?b ! i ! j)"
      by (auto simp: unclaimed_def)
    have "\<not> hasCluster st (b ! i ! j)"
    proof (cases "i = nat ox \<and> j = nat oy")
      case True
      with assms(2) c show ?thesis by simp
    next
      case False
      with i j have "?b ! i ! j = b ! i ! j" by (auto simp: setCluster_nth)
      with un mono show ?thesis by auto
    qed
    with i j ij show "p \<in> unclaimed b st" by (simp add: unclaimed_def)
  qed
  moreover have "(nat ox, nat oy) \<in> unclaimed b st"
    using rng assms(2) c by (simp add: unclaimed_def)
  moreover have "(nat ox, nat oy) \<notin> unclaimed ?b ?st"
    using rng by (simp add: unclaimed_def setCluster_nth hasCluster_def)
  ultimately show ?thesis by blast
qed

termination dfs
proof (relation "measures [\<lambda>(w, h, col, r, toVisit, b, st). card (unclaimed b st),
                           \<lambda>(w, h, col, r, toVisit, b, st). length toVisit]", goal_cases)
  case 1
  show ?case by simp
next
  case (2 w h col r ox oy toVisit b st)
  show ?case by simp
next
  case (3 w h col r ox oy toVisit b st neighbor)
  show ?case by simp
next
  case (4 w h col r ox oy toVisit b st neighbor)
  then have "unclaimed (setCluster b (nat ox) (nat oy) r) (st(r := st r @ [(ox, oy)]))
               \<subset> unclaimed b st"
    by (intro unclaimed_push) auto
  then have "card (unclaimed (setCluster b (nat ox) (nat oy) r) (st(r := st r @ [(ox, oy)])))
               < card (unclaimed b st)"
    by (intro psubset_card_mono finite_unclaimed)
  then show ?case by simp
next
  case (5 w h col r ox oy toVisit b st neighbor)
  show ?case by simp
qed

declare dfs.simps [simp del]


text \<open>
  The two scanning loops of \<^verbatim>\<open>updateClusters\<close>, row by row. \<open>scanCell\<close> is the body
  of the inner loop for the cell of column \<open>x\<close> and row \<open>y\<close>.
\<close>

fun foldE :: "('a \<Rightarrow> 's \<Rightarrow> error + 's) \<Rightarrow> 'a list \<Rightarrow> 's \<Rightarrow> error + 's" where
  "foldE f [] s = Inr s"
| "foldE f (a # as) s = (case f a s of Inl e \<Rightarrow> Inl e | Inr s' \<Rightarrow> foldE f as s')"

definition scanCell :: "nat \<Rightarrow> nat \<Rightarrow> nat \<times> nat \<Rightarrow> rcell list list \<times> store \<times> nat
                          \<Rightarrow> error + (rcell list list \<times> store \<times> nat)" where
  "scanCell w h = (\<lambda>(y, x) (b, st, fresh).
     case cellAt b (int x) (int y) of
       None \<Rightarrow> Inl TypeError
     | Some cell \<Rightarrow>
         if rcluster cell \<noteq> None then Inr (b, st, fresh)
         else let b1 = setCluster b x y fresh; st1 = st(fresh := []) in
           if rcolor cell = Null then Inr (b1, st1, Suc fresh)
           else case dfs w h (rcolor cell) fresh [(int x, int y)] b1 st1 of
                  Inl e \<Rightarrow> Inl e
                | Inr (b2, st2) \<Rightarrow> Inr (b2, st2, Suc fresh))"

text \<open>
  \<open>updateClusters\<close>: every \<^verbatim>\<open>cluster\<close> field is set to \<^verbatim>\<open>undefined\<close>, the board is
  scanned, and each cell is left holding its array. A cell left without an array
  would make \<^verbatim>\<open>checkWin\<close>, which \<^verbatim>\<open>updateGame\<close> runs next, throw on
  \<^verbatim>\<open>cluster.length\<close>. (\<^verbatim>\<open>draw\<close> only writes to the page.)
\<close>

definition updateClusters :: "game \<Rightarrow> error + game" where
  "updateClusters g =
     (let b0 = map (map (\<lambda>c. \<lparr>rcolor = color c, rcluster = None\<rparr>)) (board g) in
      case foldE (scanCell (width g) (height g))
                 (List.product [0..<height g] [0..<width g]) (b0, (\<lambda>_. []), 0) of
        Inl e \<Rightarrow> Inl e
      | Inr (b, st, fresh) \<Rightarrow>
          if list_all (list_all (\<lambda>c. rcluster c \<noteq> None)) b
          then Inr (g\<lparr>board := map (map (\<lambda>c. \<lparr>color = rcolor c,
                                               cluster = st (the (rcluster c))\<rparr>)) b\<rparr>)
          else Inl TypeError)"

subsection \<open>Hovering and scoring\<close>

definition updateHoverScore :: "int \<Rightarrow> game \<Rightarrow> game" where
  "updateHoverScore ntiles g = g\<lparr>hoverScore := ntiles * ntiles\<rparr>"

definition handleHover :: "int \<Rightarrow> int \<Rightarrow> game \<Rightarrow> outcome" where
  "handleHover ox oy g =
     (case cellAt (board g) ox oy of
        None \<Rightarrow> Inl (TypeError, g)
      | Some c \<Rightarrow>
          let g1 = g\<lparr>hoverCluster := cluster c\<rparr>;
              g2 = (if length (hoverCluster g1) > 1 then g1 else g1\<lparr>hoverCluster := []\<rparr>)
          in Inr (updateHoverScore (int (length (hoverCluster g2))) g2))"

definition handleOut :: "game \<Rightarrow> game" where
  "handleOut g = fold (\<lambda>_. updateHoverScore 0) (hoverCluster g) g"

definition updateScore :: "int \<Rightarrow> game \<Rightarrow> game" where
  "updateScore ntiles g =
     (let g1 = g\<lparr>score := score g + ntiles * ntiles\<rparr>;
          g2 = g1\<lparr>scoreLeft := max ((50 - numCells g1) * 100) 0\<rparr>
      in g2\<lparr>scoreTotal := score g2 + scoreLeft g2\<rparr>)"

definition checkWin :: "game \<Rightarrow> bool" where
  "checkWin g =
     list_all (\<lambda>y. list_all (\<lambda>x. length (cluster (board g ! x ! y)) = 0) [0..<width g])
              [0..<height g]"

text \<open>\<open>updateGame\<close>; the \<^verbatim>\<open>alert\<close> after \<^verbatim>\<open>checkWin\<close> changes nothing in the session.\<close>

definition updateGame :: "game \<Rightarrow> outcome" where
  "updateGame g =
     (let g1 = handleOut g;
          g2 = updateScore (int (length (hoverCluster g1))) g1;
          g3 = g2\<lparr>hoverCluster := []\<rparr>
      in case updateClusters g3 of Inl e \<Rightarrow> Inl (e, g3) | Inr g4 \<Rightarrow> Inr g4)"

subsection \<open>handleClick\<close>

text \<open>The rows of the hovered cluster in column \<open>x\<close>, sorted by
  \<^verbatim>\<open>(ax, bx) => bx - ax\<close>, that is largest row first.\<close>

definition clusterRows :: "coord list \<Rightarrow> nat \<Rightarrow> int list" where
  "clusterRows hc x = rev (sort (map snd (filter (\<lambda>(ix, iy). ix = int x) hc)))"

text \<open>\<^verbatim>\<open>Array.prototype.splice(y, 1)\<close>: a negative start counts from the end, a start past
  the end removes nothing.\<close>

definition splice1 :: "int \<Rightarrow> 'a list \<Rightarrow> 'a list" where
  "splice1 y xs =
     (let len = int (length xs);
          start = (if y < 0 then max (len + y) 0 else min y len)
      in take (nat start) xs @ drop (Suc (nat start)) xs)"

definition removeCell :: "nat \<Rightarrow> int \<Rightarrow> game \<Rightarrow> game" where
  "removeCell x y g =
     g\<lparr>board := (board g)[x := splice1 y (board g ! x)], numCells := numCells g - 1\<rparr>"

text \<open>\<^verbatim>\<open>while (this.board[x].length < this.height) this.board[x].unshift(...)\<close>\<close>

function addCells :: "nat \<Rightarrow> cell list \<Rightarrow> cell list" where
  "addCells h col = (if length col < h then addCells h (emptyCell # col) else col)"
  by pat_completeness auto
termination
  by (relation "measure (\<lambda>(h, col). h - length col)") auto

declare addCells.simps [simp del]

text \<open>The two loops that move the columns from \<open>x\<close> on one step to the left.\<close>

definition moveLeft :: "nat \<Rightarrow> nat \<Rightarrow> nat \<Rightarrow> cell list list \<Rightarrow> cell list list" where
  "moveLeft w h x b =
     fold (\<lambda>(mx, my) b. b[mx := (b ! mx)[my := (if int mx < int w - 1 then b ! (mx + 1) ! my
                                                 else emptyCell)]])
          (List.product [x..<w] [0..<h]) b"

text \<open>The body of the loop over the columns, for column \<open>x\<close>: the \<^verbatim>\<open>for ... of\<close> loop
  that removes the cells (\<open>removeCells\<close>), the \<^verbatim>\<open>while\<close> loop that adds cells at the
  top (\<open>refill\<close>), and the move to the left when \<^verbatim>\<open>every\<close> finds no cell with a
  cluster.\<close>

definition removeCells :: "nat \<Rightarrow> game \<Rightarrow> game" where
  "removeCells x g = fold (removeCell x) (clusterRows (hoverCluster g) x) g"

definition refill :: "nat \<Rightarrow> game \<Rightarrow> game" where
  "refill x g = g\<lparr>board := (board g)[x := addCells (height g) (board g ! x)]\<rparr>"

definition clickColumn :: "nat \<Rightarrow> game \<Rightarrow> game" where
  "clickColumn x g =
     (let g2 = refill x (removeCells x g)
      in if list_all (\<lambda>c. length (cluster c) = 0) (board g2 ! x)
         then g2\<lparr>board := moveLeft (width g2) (height g2) x (board g2)\<rparr>
         else g2)"

text \<open>The loop over the columns, from the right: \<^verbatim>\<open>for (let x = this.width - 1; x >= 0; x--)\<close>.\<close>

definition clickColumns :: "game \<Rightarrow> game" where
  "clickColumns g = fold clickColumn (rev [0..<width g]) g"

definition handleClick :: "int \<Rightarrow> int \<Rightarrow> game \<Rightarrow> outcome" where
  "handleClick ox oy g =
     (if length (hoverCluster g) < 2 then Inr g
      else case updateGame (clickColumns g) of
             Inl e \<Rightarrow> Inl e
           | Inr g' \<Rightarrow> handleHover ox oy g')"

subsection \<open>The constructor\<close>

text \<open>\<open>scoreLeft\<close> and \<open>scoreTotal\<close> are first assigned by \<open>updateScore\<close>, which
  \<open>updateGame\<close> runs before the constructor returns.\<close>

definition constructor :: "int \<Rightarrow> nat \<Rightarrow> nat \<Rightarrow> string list \<Rightarrow> (nat \<Rightarrow> nat \<Rightarrow> int) \<Rightarrow> outcome" where
  "constructor nc w h vocab rnd =
     (let g0 = \<lparr>ncolors = nc, width = w, height = h, color_vocab = vocab,
                hoverCluster = [], score = 0, numCells = int h * int w, board = [],
                scoreLeft = 0, scoreTotal = 0, hoverScore = 0\<rparr>;
          g1 = g0\<lparr>board := randomBoard rnd g0\<rparr>
      in case updateGame g1 of
           Inl e \<Rightarrow> Inl e
         | Inr g2 \<Rightarrow> Inr (updateHoverScore 0 g2))"


section \<open>Sessions\<close>

text \<open>The session a handler leaves behind, whether it returned or threw.\<close>

definition final :: "outcome \<Rightarrow> game" where
  "final r = (case r of Inl (e, g) \<Rightarrow> g | Inr g \<Rightarrow> g)"

text \<open>The handlers that \<^verbatim>\<open>createHTMLTable\<close> binds to the cells of the page
  (\<^verbatim>\<open>mouseover\<close>, \<^verbatim>\<open>mouseout\<close>, \<^verbatim>\<open>click\<close>), run in any order at any coordinates.\<close>

inductive reaches :: "game \<Rightarrow> game \<Rightarrow> bool" where
  start: "reaches g g"
| hover: "reaches g g1 \<Longrightarrow> reaches g (final (handleHover x y g1))"
| out: "reaches g g1 \<Longrightarrow> reaches g (handleOut g1)"
| click: "reaches g g1 \<Longrightarrow> reaches g (final (handleClick x y g1))"

definition wellShaped :: "game \<Rightarrow> bool" where
  "wellShaped g =
     (length (board g) = width g \<and> list_all (\<lambda>col. length col = height g) (board g))"

text \<open>The hovered cells are cells of the board, each listed once.\<close>

definition hoverOnBoard :: "game \<Rightarrow> bool" where
  "hoverOnBoard g =
     (distinct (hoverCluster g) \<and>
      list_all (\<lambda>(ix, iy). 0 \<le> ix \<and> ix < int (width g) \<and> 0 \<le> iy \<and> iy < int (height g))
               (hoverCluster g))"

subsection \<open>The boards of the scenarios\<close>

text \<open>Three columns of one cell: red, blue, red.\<close>

definition redBlueRed :: game where
  "redBlueRed = \<lparr>ncolors = 2, width = 3, height = 1, color_vocab = [''red'', ''blue''],
     hoverCluster = [], score = 0, numCells = 3,
     board = [[\<lparr>color = Named ''red'', cluster = [(0, 0)]\<rparr>],
              [\<lparr>color = Named ''blue'', cluster = [(1, 0)]\<rparr>],
              [\<lparr>color = Named ''red'', cluster = [(2, 0)]\<rparr>]],
     scoreLeft = 4700, scoreTotal = 4700, hoverScore = 0\<rparr>"

text \<open>Two columns of one cell, both red.\<close>

definition twoReds :: game where
  "twoReds = \<lparr>ncolors = 1, width = 2, height = 1, color_vocab = [''red''],
     hoverCluster = [], score = 0, numCells = 2,
     board = [[\<lparr>color = Named ''red'', cluster = [(0, 0), (1, 0)]\<rparr>],
              [\<lparr>color = Named ''red'', cluster = [(0, 0), (1, 0)]\<rparr>]],
     scoreLeft = 4800, scoreTotal = 4800, hoverScore = 0\<rparr>"

text \<open>One column of three cells: red, red, blue from the top.\<close>

definition redRedBlue :: game where
  "redRedBlue = \<lparr>ncolors = 2, width = 1, height = 3, color_vocab = [''red'', ''blue''],
     hoverCluster = [], score = 0, numCells = 3,
     board = [[\<lparr>color = Named ''red'', cluster = [(0, 0), (0, 1)]\<rparr>,
               \<lparr>color = Named ''red'', cluster = [(0, 0), (0, 1)]\<rparr>,
               \<lparr>color = Named ''blue'', cluster = [(0, 2)]\<rparr>]],
     scoreLeft = 4700, scoreTotal = 4700, hoverScore = 0\<rparr>"

text \<open>The same column with the pointer over its red cells.\<close>

definition redRedBlueHovered :: game where
  "redRedBlueHovered = redRedBlue\<lparr>hoverCluster := [(0, 0), (0, 1)], hoverScore := 4\<rparr>"

text \<open>The two red cells with the pointer over them.\<close>

definition twoRedsHovered :: game where
  "twoRedsHovered = twoReds\<lparr>hoverCluster := [(0, 0), (1, 0)], hoverScore := 4\<rparr>"

lemma redBlueRed_constructed:
  "constructor 2 3 1 [''red'', ''blue''] (\<lambda>x y. [0, 1, 0] ! x) = Inr redBlueRed"
  by code_simp

lemma twoReds_constructed: "constructor 1 2 1 [''red''] (\<lambda>x y. 0) = Inr twoReds"
  by code_simp

lemma redRedBlue_constructed:
  "constructor 2 1 3 [''red'', ''blue''] (\<lambda>x y. [0, 0, 1] ! y) = Inr redRedBlue"
  by code_simp

section \<open>Hovering, scoring and the guard of handleClick\<close>

lemma updateHoverScore_fields [simp]:
  "score (updateHoverScore n g) = score g"
  "numCells (updateHoverScore n g) = numCells g"
  "board (updateHoverScore n g) = board g"
  "hoverCluster (updateHoverScore n g) = hoverCluster g"
  "width (updateHoverScore n g) = width g"
  "height (updateHoverScore n g) = height g"
  "scoreLeft (updateHoverScore n g) = scoreLeft g"
  "scoreTotal (updateHoverScore n g) = scoreTotal g"
  by (simp_all add: updateHoverScore_def)

lemma fold_updateHoverScore:
  "fold (\<lambda>_. updateHoverScore 0) xs g = (if xs = [] then g else updateHoverScore 0 g)"
  by (induction xs arbitrary: g) (auto simp: updateHoverScore_def)

lemma handleOut_eq: "handleOut g = (if hoverCluster g = [] then g else updateHoverScore 0 g)"
  by (simp add: handleOut_def fold_updateHoverScore)

lemma handleOut_fields [simp]:
  "score (handleOut g) = score g"
  "numCells (handleOut g) = numCells g"
  "board (handleOut g) = board g"
  "hoverCluster (handleOut g) = hoverCluster g"
  "width (handleOut g) = width g"
  "height (handleOut g) = height g"
  "scoreLeft (handleOut g) = scoreLeft g"
  "scoreTotal (handleOut g) = scoreTotal g"
  by (simp_all add: handleOut_eq)

lemma final_simps [simp]: "final (Inr g) = g" "final (Inl (e, g)) = g"
  by (simp_all add: final_def)

lemma handleHover_final_fields [simp]:
  "score (final (handleHover x y g)) = score g"
  "numCells (final (handleHover x y g)) = numCells g"
  "board (final (handleHover x y g)) = board g"
  "width (final (handleHover x y g)) = width g"
  "height (final (handleHover x y g)) = height g"
  "scoreLeft (final (handleHover x y g)) = scoreLeft g"
  "scoreTotal (final (handleHover x y g)) = scoreTotal g"
  by (simp_all add: handleHover_def Let_def split: option.splits)

text \<open>
  C1. The claim: the termination check is true exactly when no cluster has two cells or
  more, so it is true at once on the board red, blue, red. In the code \<open>checkWin\<close> returns
  false as soon as a cell holds an array that is not empty, and the array of a coloured
  cell holds that cell itself: on red, blue, red, where every cluster is a single cell,
  \<open>checkWin\<close> is false. The comment on \<^verbatim>\<open>checkWin\<close> reads: game is "won" when all cells
  aren't part of 2+ cluster.
\<close>

theorem checkWin_redBlueRed:
  "constructor 2 3 1 [''red'', ''blue''] (\<lambda>x y. [0, 1, 0] ! x) = Inr redBlueRed \<and>
   list_all (list_all (\<lambda>c. length (cluster c) = 1)) (board redBlueRed) \<and>
   \<not> checkWin redBlueRed"
  by code_simp

text \<open>
  C7. The claim: previewAt sets the previewed cluster and yields the preview size as its
  result, 2 on the board of two red cells. \<open>handleHover\<close> returns no value; what it
  yields is the number it has \<open>updateHoverScore\<close> show in \<^verbatim>\<open>#hover\<close>, and that is the
  square of the preview size: 4 on the two red cells.
\<close>

theorem handleHover_yields_square_counterexample:
  "handleHover 0 0 twoReds = Inr twoRedsHovered \<and>
   length (hoverCluster twoRedsHovered) = 2 \<and>
   hoverScore twoRedsHovered = 4 \<and> hoverScore twoRedsHovered \<noteq> 2"
  by code_simp

text \<open>
  C7, amended: for a coordinate on the board, \<open>handleHover\<close> sets \<open>hoverCluster\<close> to the
  cluster stored at the cell when it has two cells or more and to the empty array
  otherwise, changes nothing else in the session but the number shown in \<^verbatim>\<open>#hover\<close>,
  and shows there the square of the preview size, 0 when the cell is not in a cluster of
  two cells or more.
\<close>

theorem handleHover_preview:
  assumes "cellAt (board g) x y = Some c"
  shows "handleHover x y g =
           Inr (g\<lparr>hoverCluster := (if 2 \<le> length (cluster c) then cluster c else []),
                  hoverScore := (if 2 \<le> length (cluster c)
                                 then int (length (cluster c)) * int (length (cluster c))
                                 else 0)\<rparr>)"
  using assms by (auto simp: handleHover_def updateHoverScore_def Let_def)

theorem handleHover_preview_witness:
  "cellAt (board twoReds) 0 0 = Some \<lparr>color = Named ''red'', cluster = [(0, 0), (1, 0)]\<rparr> \<and>
   handleHover 0 0 twoReds = Inr (twoReds\<lparr>hoverCluster := [(0, 0), (1, 0)], hoverScore := 4\<rparr>)"
  using handleHover_preview [of twoReds 0 0 "\<lparr>color = Named ''red'', cluster = [(0, 0), (1, 0)]\<rparr>"]
  by (simp add: twoReds_def cellAt_def)


section \<open>Removing the cells of a column\<close>


lemma splice1_in_range:
  "0 \<le> y \<Longrightarrow> y < int (length xs) \<Longrightarrow> splice1 y xs = take (nat y) xs @ drop (Suc (nat y)) xs"
  by (simp add: splice1_def Let_def min_def)

lemma splice1_length:
  "0 \<le> y \<Longrightarrow> y < int (length xs) \<Longrightarrow> length (splice1 y xs) = length xs - 1"
  by (auto simp: splice1_in_range)

lemma splice1_nth:
  assumes "0 \<le> y" "y < int (length xs)" "i < length xs - 1"
  shows "splice1 y xs ! i = (if int i < y then xs ! i else xs ! Suc i)"
  using assms by (auto simp: splice1_in_range nth_append min_def)

lemma fold_splice1:
  assumes "sorted_wrt (>) ys" and "\<forall>y\<in>set ys. 0 \<le> y \<and> y < int (length col)"
  shows "length (fold splice1 ys col) = length col - length ys \<and>
         (\<forall>i < length col. int i \<notin> set ys \<longrightarrow>
            fold splice1 ys col ! (i - length (filter (\<lambda>z. z < int i) ys)) = col ! i)"
  using assms
proof (induction ys arbitrary: col)
  case Nil
  then show ?case by simp
next
  case (Cons y ys)
  let ?c = "splice1 y col"
  from Cons.prems have y: "0 \<le> y" "y < int (length col)" by auto
  have len: "length ?c = length col - 1" using y by (rule splice1_length)
  from Cons.prems have below: "\<forall>z\<in>set ys. z < y" and srt: "sorted_wrt (>) ys" by auto
  have rng: "\<forall>z\<in>set ys. 0 \<le> z \<and> z < int (length ?c)"
  proof
    fix z assume z: "z \<in> set ys"
    with Cons.prems below have "0 \<le> z" "z < y" by auto
    with y len show "0 \<le> z \<and> z < int (length ?c)" by auto
  qed
  note IH = Cons.IH [OF srt rng]
  have l: "length (fold splice1 (y # ys) col) = length col - length (y # ys)"
    using IH len by simp
  have n: "fold splice1 (y # ys) col ! (i - length (filter (\<lambda>z. z < int i) (y # ys))) = col ! i"
    if i: "i < length col" and notin: "int i \<notin> set (y # ys)" for i
  proof (cases "int i < y")
    case True
    have "i < length ?c" using True y len by auto
    moreover have "?c ! i = col ! i"
      using True y i len by (subst splice1_nth) auto
    ultimately show ?thesis using IH notin True by auto
  next
    case False
    with notin have gt: "y < int i" by auto
    then obtain k where k: "i = Suc k" using y by (cases i) auto
    have kk: "k < length ?c" using i k len by auto
    have knot: "int k \<notin> set ys" using below gt k by auto
    have ck: "?c ! k = col ! i"
      using gt y i k len by (subst splice1_nth) auto
    have "filter (\<lambda>z. z < int i) ys = filter (\<lambda>z. z < int k) ys"
      using below gt k by (intro filter_cong) auto
    then have c1: "length (filter (\<lambda>z. z < int i) (y # ys)) = Suc (length (filter (\<lambda>z. z < int k) ys))"
      using gt by simp
    from IH kk knot have "fold splice1 ys ?c ! (k - length (filter (\<lambda>z. z < int k) ys)) = ?c ! k"
      by blast
    then show ?thesis using ck c1 k by simp
  qed
  from l n show ?case by blast
qed

lemma addCells_eq: "addCells h col = replicate (h - length col) emptyCell @ col"
proof (induction h col rule: addCells.induct)
  case (1 h col)
  show ?case
  proof (cases "length col < h")
    case True
    then have "h - length col = Suc (h - length (emptyCell # col))" by simp
    with True 1 show ?thesis
      by (subst addCells.simps) (simp add: replicate_app_Cons_same)
  next
    case False
    then show ?thesis by (subst addCells.simps) simp
  qed
qed


lemma removeCell_fold:
  "x < length (board g) \<Longrightarrow>
   fold (removeCell x) ys g =
     g\<lparr>board := (board g)[x := fold splice1 ys (board g ! x)],
       numCells := numCells g - int (length ys)\<rparr>"
proof (induction ys arbitrary: g)
  case Nil
  then show ?case by simp
next
  case (Cons y ys)
  have "x < length (board (removeCell x y g))"
    using Cons.prems by (simp add: removeCell_def)
  from Cons.IH [OF this] Cons.prems show ?case
    by (simp add: removeCell_def)
qed

lemma clusterRows_set: "set (clusterRows hc x) = {iy. (int x, iy) \<in> set hc}"
  by (force simp: clusterRows_def)

lemma clusterRows_sorted:
  assumes "distinct hc"
  shows "sorted_wrt (>) (clusterRows hc x)"
proof -
  let ?zs = "map snd (filter (\<lambda>(ix, iy). ix = int x) hc)"
  have "inj_on snd (set (filter (\<lambda>(ix, iy). ix = int x) hc))"
    by (auto simp: inj_on_def)
  with assms have "distinct ?zs"
    by (simp add: distinct_map)
  then have "sorted_wrt (<) (sort ?zs)"
    by (simp add: strict_sorted_iff)
  then show ?thesis
    by (simp add: clusterRows_def sorted_wrt_rev)
qed


lemma distinct_ints_length:
  assumes "distinct zs" and "\<forall>z\<in>set zs. lo \<le> z \<and> z < hi"
  shows "length zs \<le> nat (hi - lo)"
proof -
  have "set zs \<subseteq> {lo..<hi}"
    using assms(2) by auto
  then have "card (set zs) \<le> card {lo..<hi}"
    by (intro card_mono) auto
  then show ?thesis
    using assms(1) by (simp add: distinct_card)
qed

lemma refill_removeCells:
  assumes "x < length (board g)"
  shows "refill x (removeCells x g) =
           g\<lparr>board := (board g)[x := addCells (height g)
                                       (fold splice1 (clusterRows (hoverCluster g) x) (board g ! x))],
             numCells := numCells g - int (length (clusterRows (hoverCluster g) x))\<rparr>"
  using assms by (simp add: refill_def removeCells_def removeCell_fold)

lemma fallen_column:
  assumes srt: "sorted_wrt (>) ys" and rng: "\<forall>y\<in>set ys. 0 \<le> y \<and> y < int (length col)"
  defines "new \<equiv> addCells (length col) (fold splice1 ys col)"
  shows "new = replicate (length ys) emptyCell @ fold splice1 ys col"
    and "length new = length col"
    and "\<forall>i < length col. int i \<notin> set ys \<longrightarrow>
           new ! (i + length (filter (\<lambda>z. int i < z) ys)) = col ! i"
proof -
  let ?r = "fold splice1 ys col"
  from srt have dist: "distinct ys"
    by (induction ys) auto
  have k: "length ys \<le> length col"
    using distinct_ints_length [OF dist, of 0 "int (length col)"] rng by simp
  from fold_splice1 [OF srt rng] have lr: "length ?r = length col - length ys"
    and nr: "\<And>i. i < length col \<Longrightarrow> int i \<notin> set ys \<Longrightarrow>
               ?r ! (i - length (filter (\<lambda>z. z < int i) ys)) = col ! i"
    by auto
  have "length col - length ?r = length ys"
    using k lr by simp
  then show eq: "new = replicate (length ys) emptyCell @ ?r"
    unfolding new_def by (subst addCells_eq) simp
  show "length new = length col"
    using eq k lr by simp
  show "\<forall>i < length col. int i \<notin> set ys \<longrightarrow>
           new ! (i + length (filter (\<lambda>z. int i < z) ys)) = col ! i"
  proof (intro allI impI)
    fix i assume i: "i < length col" and notin: "int i \<notin> set ys"
    let ?a = "length (filter (\<lambda>z. z < int i) ys)" and ?c = "length (filter (\<lambda>z. int i < z) ys)"
    have "\<And>z. z \<in> set ys \<Longrightarrow> (\<not> z < int i) = (int i < z)"
      using notin by (metis not_less_iff_gr_or_eq)
    then have "filter (\<lambda>z. \<not> z < int i) ys = filter (\<lambda>z. int i < z) ys"
      by (intro filter_cong) auto
    with sum_length_filter_compl [of "\<lambda>z. z < int i" ys] have ac: "?a + ?c = length ys"
      by simp
    have "distinct (filter (\<lambda>z. z < int i) ys)" using dist by simp
    moreover have "\<forall>z\<in>set (filter (\<lambda>z. z < int i) ys). 0 \<le> z \<and> z < int i"
      using rng by auto
    ultimately have "?a \<le> nat (int i - 0)" by (rule distinct_ints_length)
    then have ai: "?a \<le> i" by simp
    have "distinct (filter (\<lambda>z. int i < z) ys)" using dist by simp
    moreover have "\<forall>z\<in>set (filter (\<lambda>z. int i < z) ys). int i + 1 \<le> z \<and> z < int (length col)"
      using rng by auto
    ultimately have "?c \<le> nat (int (length col) - (int i + 1))" by (rule distinct_ints_length)
    then have ci: "i + ?c < length col" using i by simp
    have "i + ?c = length ys + (i - ?a)" using ac ai by simp
    moreover have "i - ?a < length ?r" using lr i ac ai k ci by simp
    ultimately have "new ! (i + ?c) = ?r ! (i - ?a)"
      by (simp add: eq nth_append)
    with nr [OF i notin] show "new ! (i + ?c) = col ! i" by simp
  qed
qed


lemma nths_cong_length:
  assumes "\<And>i. i < length xs \<Longrightarrow> (i \<in> A) = (i \<in> B)"
  shows "nths xs A = nths xs B"
proof -
  have "filter (\<lambda>p. snd p \<in> A) (zip xs [0..<length xs])
          = filter (\<lambda>p. snd p \<in> B) (zip xs [0..<length xs])"
  proof (rule filter_cong [OF refl])
    fix p assume "p \<in> set (zip xs [0..<length xs])"
    then have "snd p \<in> set [0..<length xs]" by (metis prod.collapse set_zip_rightD)
    then show "(snd p \<in> A) = (snd p \<in> B)" using assms by simp
  qed
  then show ?thesis by (simp add: nths_def)
qed

lemma fold_splice1_nths:
  assumes "sorted_wrt (>) ys" and "\<forall>y\<in>set ys. 0 \<le> y \<and> y < int (length col)"
  shows "fold splice1 ys col = nths col {i. int i \<notin> set ys}"
  using assms
proof (induction ys arbitrary: col)
  case Nil
  then show ?case by (simp add: nths_all)
next
  case (Cons y ys)
  define n where "n = nat y"
  define A where "A = {i. int i \<notin> set (y # ys)}"
  define A' where "A' = {i. int i \<notin> set ys}"
  from Cons.prems have y: "0 \<le> y" "y < int (length col)" by auto
  then have n: "n < length col" "int n = y" by (simp_all add: n_def)
  let ?T = "take n col" and ?D = "drop (Suc n) col"
  let ?c = "?T @ ?D"
  have c: "splice1 y col = ?c" using y by (simp add: splice1_in_range n_def)
  from Cons.prems have below: "\<forall>z\<in>set ys. z < y" and srt: "sorted_wrt (>) ys" by auto
  have lT: "length ?T = n" using n by simp
  have rng: "\<forall>z\<in>set ys. 0 \<le> z \<and> z < int (length ?c)"
  proof
    fix z assume z: "z \<in> set ys"
    with Cons.prems below have "0 \<le> z" "z < y" by auto
    with n show "0 \<le> z \<and> z < int (length ?c)" by auto
  qed
  have above': "j + n \<in> A'" for j
    using below n by (fastforce simp: A'_def)
  have above: "Suc j + n \<in> A" for j
    using above' [of "Suc j"] n by (simp add: A_def A'_def)
  have nA: "n \<notin> A" using n by (simp add: A_def)
  have "fold splice1 (y # ys) col = fold splice1 ys ?c" by (simp add: c)
  also have "\<dots> = nths ?c A'" unfolding A'_def using srt rng by (rule Cons.IH)
  also have "\<dots> = nths ?T A' @ nths ?D {j. j + n \<in> A'}"
    by (simp only: nths_append lT)
  also have "nths ?D {j. j + n \<in> A'} = ?D"
    using above' by (intro nths_all) simp
  finally have lhs: "fold splice1 (y # ys) col = nths ?T A' @ ?D" .
  have col: "col = ?T @ col ! n # ?D" using n by (simp add: id_take_nth_drop)
  have "nths col A = nths (?T @ col ! n # ?D) A"
    using col by simp
  also have "\<dots> = nths ?T A @ nths (col ! n # ?D) {j. j + n \<in> A}"
    by (simp only: nths_append lT)
  also have "nths (col ! n # ?D) {j. j + n \<in> A} = nths ?D {j. Suc j + n \<in> A}"
    using nA by (simp add: nths_Cons)
  also have "\<dots> = ?D"
    using above by (intro nths_all) simp
  also have "nths ?T A = nths ?T A'"
  proof (rule nths_cong_length)
    fix i assume "i < length ?T"
    then have "int i \<noteq> y" using n by simp
    then show "(i \<in> A) = (i \<in> A')" by (simp add: A_def A'_def)
  qed
  finally show ?case using lhs by (simp add: A_def)
qed

lemma clusterRows_length:
  "length (clusterRows hc x) = length (filter (\<lambda>(ix, iy). ix = int x) hc)"
  by (simp add: clusterRows_def)


lemma clusterRows_count:
  "length (filter P (clusterRows hc x)) = length (filter (\<lambda>(ix, iy). ix = int x \<and> P iy) hc)"
proof -
  let ?F = "filter (\<lambda>(ix, iy). ix = int x) hc"
  have "filter P (clusterRows hc x) = rev (sort (filter P (map snd ?F)))"
    by (simp add: clusterRows_def filter_sort flip: rev_filter)
  then have "length (filter P (clusterRows hc x)) = length (filter P (map snd ?F))"
    by simp
  also have "\<dots> = length (filter (P \<circ> snd) ?F)"
    by (simp add: filter_map)
  also have "filter (P \<circ> snd) ?F = filter (\<lambda>(ix, iy). ix = int x \<and> P iy) hc"
    by (auto intro: filter_cong)
  finally show ?thesis .
qed

text \<open>
  C2. In a column \<open>x\<close> the rows that are spliced out are exactly the rows of the hovered
  cells of that column, largest row first, that is from the bottom upwards; the column
  is then brought back to \<open>height\<close> cells by empty cells added at its top. The column
  that results is: as many empty cells as the column had hovered cells, then the cells
  that were not hovered, in their order. So a cell that stays, of row \<open>i\<close> before, has
  moved down by the number of hovered cells that were below it, and a cell with no
  hovered cell below it is where it was. The other columns are untouched, and
  \<open>numCells\<close> has dropped by the number of cells removed.
\<close>

theorem gravity_column:
  assumes "wellShaped g" and "hoverOnBoard g" and "x < width g"
  shows "sorted_wrt (>) (clusterRows (hoverCluster g) x) \<and>
         set (clusterRows (hoverCluster g) x) = {iy. (int x, iy) \<in> set (hoverCluster g)} \<and>
         board (refill x (removeCells x g)) ! x =
           replicate (length (filter (\<lambda>(ix, iy). ix = int x) (hoverCluster g))) emptyCell
           @ nths (board g ! x) {i. (int x, int i) \<notin> set (hoverCluster g)} \<and>
         length (board (refill x (removeCells x g)) ! x) = height g \<and>
         (\<forall>j < length (filter (\<lambda>(ix, iy). ix = int x) (hoverCluster g)).
            board (refill x (removeCells x g)) ! x ! j = emptyCell) \<and>
         (\<forall>i < height g. (int x, int i) \<notin> set (hoverCluster g) \<longrightarrow>
            board (refill x (removeCells x g)) ! x
              ! (i + length (filter (\<lambda>(ix, iy). ix = int x \<and> int i < iy) (hoverCluster g)))
            = board g ! x ! i) \<and>
         (\<forall>x'. x' \<noteq> x \<longrightarrow> board (refill x (removeCells x g)) ! x' = board g ! x') \<and>
         numCells (refill x (removeCells x g))
           = numCells g - int (length (filter (\<lambda>(ix, iy). ix = int x) (hoverCluster g)))"
proof -
  let ?ys = "clusterRows (hoverCluster g) x" and ?col = "board g ! x"
  let ?k = "length (filter (\<lambda>(ix, iy). ix = int x) (hoverCluster g))"
  from assms have x: "x < length (board g)" and len: "length ?col = height g"
    by (auto simp: wellShaped_def list_all_length)
  from assms(2) have srt: "sorted_wrt (>) ?ys"
    by (simp add: hoverOnBoard_def clusterRows_sorted)
  have rng: "\<forall>y\<in>set ?ys. 0 \<le> y \<and> y < int (length ?col)"
    using assms(2) len by (auto simp: hoverOnBoard_def clusterRows_set list_all_iff)
  have k: "length ?ys = ?k" by (rule clusterRows_length)
  have new: "board (refill x (removeCells x g)) ! x = addCells (length ?col) (fold splice1 ?ys ?col)"
    using x len by (simp add: refill_removeCells)
  have others: "\<forall>x'. x' \<noteq> x \<longrightarrow> board (refill x (removeCells x g)) ! x' = board g ! x'"
    using x by (simp add: refill_removeCells)
  have num: "numCells (refill x (removeCells x g)) = numCells g - int ?k"
    using x by (simp add: refill_removeCells k)
  note fc = fallen_column [OF srt rng]
  have closed: "board (refill x (removeCells x g)) ! x
                  = replicate ?k emptyCell @ nths ?col {i. (int x, int i) \<notin> set (hoverCluster g)}"
    unfolding new fc(1) unfolding fold_splice1_nths [OF srt rng] k by (simp add: clusterRows_set)
  have top: "\<forall>j < ?k. board (refill x (removeCells x g)) ! x ! j = emptyCell"
    unfolding closed by (simp add: nth_append)
  have stay: "\<forall>i < height g. (int x, int i) \<notin> set (hoverCluster g) \<longrightarrow>
            board (refill x (removeCells x g)) ! x
              ! (i + length (filter (\<lambda>(ix, iy). ix = int x \<and> int i < iy) (hoverCluster g)))
            = board g ! x ! i"
    using fc(3) unfolding new len clusterRows_count by (simp add: clusterRows_set)
  have l: "length (board (refill x (removeCells x g)) ! x) = height g"
    using fc(2) unfolding new len .
  from srt closed l top stay others num show ?thesis
    by (simp add: clusterRows_set)
qed

theorem gravity_column_witness:
  "wellShaped redRedBlueHovered \<and> hoverOnBoard redRedBlueHovered \<and>
   0 < width redRedBlueHovered \<and>
   clusterRows (hoverCluster redRedBlueHovered) 0 = [1, 0] \<and>
   board (refill 0 (removeCells 0 redRedBlueHovered)) ! 0
     = [emptyCell, emptyCell, \<lparr>color = Named ''blue'', cluster = [(0, 2)]\<rparr>] \<and>
   numCells (refill 0 (removeCells 0 redRedBlueHovered)) = 1"
proof -
  have h: "wellShaped redRedBlueHovered" "hoverOnBoard redRedBlueHovered"
    "0 < width redRedBlueHovered"
    by (simp_all add: redRedBlueHovered_def redRedBlue_def wellShaped_def hoverOnBoard_def)
  have r: "clusterRows (hoverCluster redRedBlueHovered) 0 = [1, 0]"
    by (simp add: redRedBlueHovered_def redRedBlue_def clusterRows_def)
  have k: "length (filter (\<lambda>(ix, iy). ix = int 0) (hoverCluster redRedBlueHovered)) = 2"
    "numCells redRedBlueHovered = 3"
    by (simp_all add: redRedBlueHovered_def redRedBlue_def)
  have n: "nths (board redRedBlueHovered ! 0) {i. (int 0, int i) \<notin> set (hoverCluster redRedBlueHovered)}
             = [\<lparr>color = Named ''blue'', cluster = [(0, 2)]\<rparr>]"
    by (simp add: redRedBlueHovered_def redRedBlue_def nths_Cons)
  from gravity_column [OF h] have
    "board (refill 0 (removeCells 0 redRedBlueHovered)) ! 0
       = replicate (length (filter (\<lambda>(ix, iy). ix = int 0) (hoverCluster redRedBlueHovered))) emptyCell
         @ nths (board redRedBlueHovered ! 0) {i. (int 0, int i) \<notin> set (hoverCluster redRedBlueHovered)}"
    "numCells (refill 0 (removeCells 0 redRedBlueHovered))
       = numCells redRedBlueHovered
         - int (length (filter (\<lambda>(ix, iy). ix = int 0) (hoverCluster redRedBlueHovered)))"
    by blast+
  then have "board (refill 0 (removeCells 0 redRedBlueHovered)) ! 0
     = [emptyCell, emptyCell, \<lparr>color = Named ''blue'', cluster = [(0, 2)]\<rparr>]"
    "numCells (refill 0 (removeCells 0 redRedBlueHovered)) = 1"
    unfolding k n by (simp_all add: numeral_2_eq_2)
  with h r show ?thesis by simp
qed


section \<open>Moving the columns to the left\<close>


lemma fold_product:
  "fold f (List.product xs ys) s = fold (\<lambda>x. fold (\<lambda>y. f (x, y)) ys) xs s"
  by (induction xs arbitrary: s) (simp_all add: fold_map comp_def)

text \<open>the inner loop: column mx is overwritten cell by cell\<close>
lemma moveLeft_inner:
  assumes "mx < length b" and "n \<le> length (b ! mx)"
  shows "fold (\<lambda>my b. b[mx := (b ! mx)[my := F (b ! (mx + 1)) my]]) [0..<n] b
         = b[mx := map (F (b ! (mx + 1))) [0..<n] @ drop n (b ! mx)]"
  using assms(2)
proof (induction n)
  case 0
  then show ?case by simp
next
  case (Suc n)
  let ?c = "map (F (b ! (mx + 1))) [0..<n] @ drop n (b ! mx)"
  have "(b[mx := ?c]) ! (mx + 1) = b ! (mx + 1)" by simp
  moreover have "?c[n := F (b ! (mx + 1)) n] = map (F (b ! (mx + 1))) [0..<Suc n] @ drop (Suc n) (b ! mx)"
    using Suc.prems by (simp add: list_update_append upd_conv_take_nth_drop Cons_nth_drop_Suc[symmetric] drop_Suc)
  ultimately show ?case
    using Suc assms(1) by simp
qed


definition shiftColumn :: "nat \<Rightarrow> nat \<Rightarrow> nat \<Rightarrow> cell list list \<Rightarrow> cell list list" where
  "shiftColumn w h mx b = b[mx := (if Suc mx < w then b ! Suc mx else replicate h emptyCell)]"

lemma moveLeft_column:
  assumes "mx < length b" and "length (b ! mx) = h"
    and "Suc mx < w \<longrightarrow> Suc mx < length b \<and> length (b ! Suc mx) = h"
  shows "fold (\<lambda>my b. b[mx := (b ! mx)[my := (if int mx < int w - 1 then b ! (mx + 1) ! my
                                                else emptyCell)]]) [0..<h] b
         = shiftColumn w h mx b"
proof -
  let ?F = "\<lambda>c my. if int mx < int w - 1 then c ! my else emptyCell"
  have "fold (\<lambda>my b. b[mx := (b ! mx)[my := ?F (b ! (mx + 1)) my]]) [0..<h] b
          = b[mx := map (?F (b ! (mx + 1))) [0..<h] @ drop h (b ! mx)]"
    using assms(1,2) by (intro moveLeft_inner) simp_all
  moreover have "map (?F (b ! (mx + 1))) [0..<h]
                   = (if Suc mx < w then b ! Suc mx else replicate h emptyCell)"
  proof (cases "Suc mx < w")
    case True
    with assms(3) have "length (b ! Suc mx) = h" by simp
    then have "map (\<lambda>my. b ! Suc mx ! my) [0..<h] = b ! Suc mx"
      by (metis map_nth)
    with True show ?thesis by (simp add: int_ops)
  next
    case False
    then have "\<not> int mx < int w - 1" by linarith
    then show ?thesis by (simp add: map_replicate_const)
  qed
  ultimately show ?thesis
    using assms(2) by (simp add: shiftColumn_def)
qed

lemma shiftColumn_fold:
  assumes "length b = w" and "\<forall>i < w. length (b ! i) = h" and "x \<le> m" and "m \<le> w"
  shows "length (fold (shiftColumn w h) [x..<m] b) = w \<and>
         (\<forall>i < w. fold (shiftColumn w h) [x..<m] b ! i =
            (if x \<le> i \<and> i < m then (if Suc i < w then b ! Suc i else replicate h emptyCell)
             else b ! i))"
  using assms(3,4)
proof (induction m)
  case 0
  then show ?case using assms(1) by simp
next
  case (Suc m)
  show ?case
  proof (cases "x = Suc m")
    case True
    then show ?thesis using assms(1) by auto
  next
    case False
    with Suc.prems have xm: "x \<le> m" "m < w" by auto
    let ?r = "fold (shiftColumn w h) [x..<m] b"
    from Suc.IH xm have len: "length ?r = w"
      and nth: "\<And>i. i < w \<Longrightarrow> ?r ! i =
                 (if x \<le> i \<and> i < m then (if Suc i < w then b ! Suc i else replicate h emptyCell)
                  else b ! i)"
      by auto
    have step: "fold (shiftColumn w h) [x..<Suc m] b = shiftColumn w h m ?r"
      using xm by simp
    have "Suc m < w \<Longrightarrow> ?r ! Suc m = b ! Suc m"
      by (simp add: nth)
    then show ?thesis
      unfolding step using len xm nth
      by (auto simp: shiftColumn_def nth_list_update)
  qed
qed

lemma moveLeft_fold:
  assumes "length b = w" and "\<forall>i < w. length (b ! i) = h" and "x \<le> m" and "m \<le> w"
  shows "fold (\<lambda>mx. fold (\<lambda>my b. b[mx := (b ! mx)[my := (if int mx < int w - 1
                                                          then b ! (mx + 1) ! my
                                                          else emptyCell)]]) [0..<h]) [x..<m] b
         = fold (shiftColumn w h) [x..<m] b"
  using assms(3,4)
proof (induction m)
  case 0
  then show ?case by simp
next
  case (Suc m)
  show ?case
  proof (cases "x = Suc m")
    case True
    then show ?thesis by simp
  next
    case False
    with Suc.prems have xm: "x \<le> m" "m < w" by auto
    let ?r = "fold (shiftColumn w h) [x..<m] b"
    from shiftColumn_fold [OF assms(1,2) xm(1)] xm have len: "length ?r = w"
      and nth: "\<And>i. i < w \<Longrightarrow> ?r ! i =
                 (if x \<le> i \<and> i < m then (if Suc i < w then b ! Suc i else replicate h emptyCell)
                  else b ! i)"
      by auto
    have cols: "length (?r ! i) = h" if "i < w" for i
      using that assms(2) by (auto simp: nth)
    have "fold (\<lambda>my b. b[m := (b ! m)[my := (if int m < int w - 1 then b ! (m + 1) ! my
                                              else emptyCell)]]) [0..<h] ?r
            = shiftColumn w h m ?r"
      using xm len cols by (intro moveLeft_column) auto
    with Suc.IH xm show ?thesis by simp
  qed
qed

lemma moveLeft_eq:
  assumes "length b = w" and "\<forall>i < w. length (b ! i) = h" and "x < w"
  shows "moveLeft w h x b = take x b @ drop (Suc x) b @ [replicate h emptyCell]"
proof -
  have "moveLeft w h x b = fold (shiftColumn w h) [x..<w] b"
    using moveLeft_fold [OF assms(1,2), of x w] assms(3)
    by (simp add: moveLeft_def fold_product)
  moreover from shiftColumn_fold [OF assms(1,2), of x w] assms(3)
  have len: "length (fold (shiftColumn w h) [x..<w] b) = w"
    and nth: "\<And>i. i < w \<Longrightarrow> fold (shiftColumn w h) [x..<w] b ! i =
               (if x \<le> i then (if Suc i < w then b ! Suc i else replicate h emptyCell)
                else b ! i)"
    by auto
  have "fold (shiftColumn w h) [x..<w] b = take x b @ drop (Suc x) b @ [replicate h emptyCell]"
  proof (rule nth_equalityI)
    show "length (fold (shiftColumn w h) [x..<w] b)
            = length (take x b @ drop (Suc x) b @ [replicate h emptyCell])"
      using len assms by simp
  next
    fix i assume "i < length (fold (shiftColumn w h) [x..<w] b)"
    with len have i: "i < w" by simp
    show "fold (shiftColumn w h) [x..<w] b ! i
            = (take x b @ drop (Suc x) b @ [replicate h emptyCell]) ! i"
      using i assms by (auto simp: nth nth_append min_def)
  qed
  ultimately show ?thesis by simp
qed



section \<open>The board after the loop over the columns\<close>

text \<open>After \<open>updateClusters\<close> a cell holds the empty array exactly when it is empty; the
  test \<^verbatim>\<open>every(c => c.cluster.length === 0)\<close> of \<open>clickColumn\<close> reads the arrays, not
  the colours.\<close>

definition tidy :: "cell \<Rightarrow> bool" where
  "tidy c = ((cluster c = []) = (color c = Null))"

definition tidyBoard :: "game \<Rightarrow> bool" where
  "tidyBoard g = list_all (list_all tidy) (board g)"

text \<open>A column with no coloured cell.\<close>

definition emptyColumn :: "cell list \<Rightarrow> bool" where
  "emptyColumn col = list_all (\<lambda>c. color c = Null) col"

text \<open>Column \<open>x\<close> once its hovered cells are removed and it is refilled from the top.\<close>

definition fallen :: "game \<Rightarrow> nat \<Rightarrow> cell list" where
  "fallen g x = board (refill x (removeCells x g)) ! x"

text \<open>The columns that keep a coloured cell, in their order, then empty columns up to
  the width of the board; \<open>settledFrom m\<close> is the same for the columns from \<open>m\<close> on, with
  the columns before \<open>m\<close> as they were.\<close>

definition settled :: "game \<Rightarrow> cell list list" where
  "settled g =
     (let kept = filter (\<lambda>col. \<not> emptyColumn col) (map (fallen g) [0..<width g])
      in kept @ replicate (width g - length kept) (replicate (height g) emptyCell))"

definition settledFrom :: "nat \<Rightarrow> game \<Rightarrow> cell list list" where
  "settledFrom m g =
     (let kept = filter (\<lambda>col. \<not> emptyColumn col) (map (fallen g) [m..<width g])
      in take m (board g) @ kept
         @ replicate (width g - m - length kept) (replicate (height g) emptyCell))"

text \<open>The number of hovered cells in the columns from \<open>m\<close> on.\<close>

definition removedFrom :: "nat \<Rightarrow> game \<Rightarrow> int" where
  "removedFrom m g = (\<Sum>x\<leftarrow>[m..<width g]. int (length (clusterRows (hoverCluster g) x)))"


text \<open>Three columns of two cells; the four red cells, which the pointer is over, fill the
  middle column and the bottom row.\<close>

definition greenRedBlue :: game where
  "greenRedBlue = \<lparr>ncolors = 3, width = 3, height = 2, color_vocab = [''green'', ''red'', ''blue''],
     hoverCluster = [(1, 0), (1, 1), (2, 1), (0, 1)], score = 0, numCells = 6,
     board = [[\<lparr>color = Named ''green'', cluster = [(0, 0)]\<rparr>,
               \<lparr>color = Named ''red'', cluster = [(1, 0), (1, 1), (2, 1), (0, 1)]\<rparr>],
              [\<lparr>color = Named ''red'', cluster = [(1, 0), (1, 1), (2, 1), (0, 1)]\<rparr>,
               \<lparr>color = Named ''red'', cluster = [(1, 0), (1, 1), (2, 1), (0, 1)]\<rparr>],
              [\<lparr>color = Named ''blue'', cluster = [(2, 0)]\<rparr>,
               \<lparr>color = Named ''red'', cluster = [(1, 0), (1, 1), (2, 1), (0, 1)]\<rparr>]],
     scoreLeft = 4400, scoreTotal = 4400, hoverScore = 16\<rparr>"

lemma greenRedBlue_constructed:
  "(case constructor 3 3 2 [''green'', ''red'', ''blue''] (\<lambda>x y. [[0, 1], [1, 1], [2, 1]] ! x ! y) of
      Inl e \<Rightarrow> Inl e | Inr g \<Rightarrow> handleHover 1 1 g) = Inr greenRedBlue"
  by code_simp

lemma splice1_length_le: "length (splice1 y xs) \<le> length xs"
  by (simp add: splice1_def Let_def)

lemma splice1_set: "set (splice1 y xs) \<subseteq> set xs"
proof -
  have "set (take a xs @ drop b xs) \<subseteq> set xs" for a b
    using set_take_subset [of a xs] set_drop_subset [of b xs] by simp
  then show ?thesis
    by (simp only: splice1_def Let_def)
qed

lemma fold_splice1_length_le: "length (fold splice1 ys xs) \<le> length xs"
proof (induction ys arbitrary: xs)
  case Nil
  show ?case by simp
next
  case (Cons y ys)
  have "length (fold splice1 ys (splice1 y xs)) \<le> length (splice1 y xs)" by (rule Cons.IH)
  also have "\<dots> \<le> length xs" by (rule splice1_length_le)
  finally show ?case by simp
qed

lemma fold_splice1_set: "set (fold splice1 ys xs) \<subseteq> set xs"
proof (induction ys arbitrary: xs)
  case Nil
  show ?case by simp
next
  case (Cons y ys)
  have "set (fold splice1 ys (splice1 y xs)) \<subseteq> set (splice1 y xs)" by (rule Cons.IH)
  also have "\<dots> \<subseteq> set xs" by (rule splice1_set)
  finally show ?case by simp
qed

lemma fallen_eq:
  assumes "x < length (board g)"
  shows "fallen g x = addCells (height g) (fold splice1 (clusterRows (hoverCluster g) x) (board g ! x))"
  using assms by (simp add: fallen_def refill_removeCells)

lemma fallen_length:
  assumes "x < length (board g)" and "length (board g ! x) = height g"
  shows "length (fallen g x) = height g"
proof -
  have "length (fold splice1 (clusterRows (hoverCluster g) x) (board g ! x)) \<le> height g"
    using fold_splice1_length_le [of "clusterRows (hoverCluster g) x" "board g ! x"] assms(2) by simp
  then show ?thesis
    using assms(1) by (simp add: fallen_eq addCells_eq)
qed

lemma fallen_tidy:
  assumes "x < length (board g)" and "list_all tidy (board g ! x)"
  shows "list_all tidy (fallen g x)"
proof -
  have "set (fold splice1 (clusterRows (hoverCluster g) x) (board g ! x)) \<subseteq> set (board g ! x)"
    by (rule fold_splice1_set)
  with assms(2) have "list_all tidy (fold splice1 (clusterRows (hoverCluster g) x) (board g ! x))"
    by (auto simp: list_all_iff)
  moreover have "tidy emptyCell" by (simp add: tidy_def emptyCell_def)
  ultimately show ?thesis
    using assms(1) by (auto simp: fallen_eq addCells_eq list_all_iff)
qed

lemma tidy_every:
  assumes "list_all tidy col"
  shows "list_all (\<lambda>c. length (cluster c) = 0) col = emptyColumn col"
  using assms by (induction col) (simp_all add: emptyColumn_def tidy_def)

lemma tidy_Null:
  assumes "tidy c" and "color c = Null"
  shows "c = emptyCell"
  using assms by (cases c) (simp add: tidy_def emptyCell_def)

lemma tidy_emptyColumn:
  assumes "list_all tidy col" and "emptyColumn col"
  shows "col = replicate (length col) emptyCell"
  using assms by (induction col) (simp_all add: emptyColumn_def tidy_Null)

lemma clickColumn_eq:
  assumes "wellShaped g" and "tidyBoard g" and "x < width g"
  shows "clickColumn x g =
           (let g2 = refill x (removeCells x g)
            in if emptyColumn (fallen g x)
               then g2\<lparr>board := take x (board g) @ drop (Suc x) (board g)
                                @ [replicate (height g) emptyCell]\<rparr>
               else g2)"
    and "board (refill x (removeCells x g)) = (board g)[x := fallen g x]"
proof -
  let ?g2 = "refill x (removeCells x g)"
  from assms have x: "x < length (board g)" and w: "length (board g) = width g"
    and cols: "\<And>i. i < width g \<Longrightarrow> length (board g ! i) = height g"
    and td: "list_all tidy (board g ! x)"
    by (auto simp: wellShaped_def tidyBoard_def list_all_length)
  have wh: "width ?g2 = width g" "height ?g2 = height g"
    using x by (simp_all add: refill_removeCells)
  show b2: "board ?g2 = (board g)[x := fallen g x]"
    using x by (simp add: refill_removeCells fallen_eq)
  have col: "board ?g2 ! x = fallen g x"
    by (simp add: fallen_def)
  have fl: "length (fallen g x) = height g"
    using x cols assms(3) by (simp add: fallen_length)
  have ev: "list_all (\<lambda>c. length (cluster c) = 0) (fallen g x) = emptyColumn (fallen g x)"
    using x td by (intro tidy_every fallen_tidy)
  have len2: "length (board ?g2) = width g" using b2 w by simp
  have cols2: "\<forall>i < width g. length (board ?g2 ! i) = height g"
  proof (intro allI impI)
    fix i assume "i < width g"
    then show "length (board ?g2 ! i) = height g"
      unfolding b2 using w cols fl by (cases "i = x") simp_all
  qed
  have "moveLeft (width g) (height g) x (board ?g2)
          = take x (board ?g2) @ drop (Suc x) (board ?g2) @ [replicate (height g) emptyCell]"
    using len2 cols2 assms(3) by (rule moveLeft_eq)
  also have "\<dots> = take x (board g) @ drop (Suc x) (board g) @ [replicate (height g) emptyCell]"
    by (simp add: b2 drop_update_cancel)
  finally have mv: "moveLeft (width ?g2) (height ?g2) x (board ?g2)
          = take x (board g) @ drop (Suc x) (board g) @ [replicate (height g) emptyCell]"
    unfolding wh .
  show "clickColumn x g =
           (let g2 = refill x (removeCells x g)
            in if emptyColumn (fallen g x)
               then g2\<lparr>board := take x (board g) @ drop (Suc x) (board g)
                                @ [replicate (height g) emptyCell]\<rparr>
               else g2)"
    by (simp only: clickColumn_def Let_def col ev mv)
qed

lemma settledFrom_shape:
  assumes "wellShaped g" and "m \<le> width g"
  shows "length (settledFrom m g) = width g"
    and "\<forall>i < width g. length (settledFrom m g ! i) = height g"
proof -
  let ?kept = "filter (\<lambda>col. \<not> emptyColumn col) (map (fallen g) [m..<width g])"
  from assms have w: "length (board g) = width g"
    and cols: "\<And>i. i < width g \<Longrightarrow> length (board g ! i) = height g"
    by (auto simp: wellShaped_def list_all_length)
  have "length ?kept \<le> length (map (fallen g) [m..<width g])"
    by (rule length_filter_le)
  then have lk: "length ?kept \<le> width g - m" by simp
  show len: "length (settledFrom m g) = width g"
    using lk assms(2) w by (simp add: settledFrom_def Let_def)
  have "\<forall>c \<in> set (settledFrom m g). length c = height g"
  proof
    fix c assume "c \<in> set (settledFrom m g)"
    then consider "c \<in> set (take m (board g))" | "c \<in> set ?kept"
      | "c = replicate (height g) emptyCell"
      by (auto simp: settledFrom_def Let_def)
    then show "length c = height g"
    proof cases
      case 1
      then have "c \<in> set (board g)" by (rule in_set_takeD)
      with assms(1) show ?thesis by (auto simp: wellShaped_def list_all_iff)
    next
      case 2
      then obtain x where "x < width g" "c = fallen g x" by auto
      with w cols show ?thesis by (simp add: fallen_length)
    next
      case 3
      then show ?thesis by simp
    qed
  qed
  with len show "\<forall>i < width g. length (settledFrom m g ! i) = height g"
    by simp
qed

lemma settledFrom_tidy:
  assumes "wellShaped g" and "tidyBoard g"
  shows "list_all (list_all tidy) (settledFrom m g)"
proof -
  let ?kept = "filter (\<lambda>col. \<not> emptyColumn col) (map (fallen g) [m..<width g])"
  from assms have w: "length (board g) = width g"
    and td: "\<And>c. c \<in> set (board g) \<Longrightarrow> list_all tidy c"
    by (auto simp: wellShaped_def tidyBoard_def list_all_iff)
  have "list_all tidy c" if "c \<in> set (settledFrom m g)" for c
  proof -
    from that consider "c \<in> set (take m (board g))" | "c \<in> set ?kept"
      | "c = replicate (height g) emptyCell"
      by (auto simp: settledFrom_def Let_def)
    then show ?thesis
    proof cases
      case 1
      then have "c \<in> set (board g)" by (rule in_set_takeD)
      then show ?thesis by (rule td)
    next
      case 2
      then obtain x where x: "x < width g" "c = fallen g x" by auto
      with w have "list_all tidy (board g ! x)" by (intro td) simp
      with x w show ?thesis by (simp add: fallen_tidy)
    next
      case 3
      then show ?thesis by (simp add: list_all_iff tidy_def emptyCell_def)
    qed
  qed
  then show ?thesis by (simp add: list_all_iff)
qed

lemma clickColumn_record:
  assumes "wellShaped g" and "tidyBoard g" and "x < width g"
  shows "clickColumn x g =
           g\<lparr>board := (if emptyColumn (fallen g x)
                       then take x (board g) @ drop (Suc x) (board g)
                            @ [replicate (height g) emptyCell]
                       else (board g)[x := fallen g x]),
             numCells := numCells g - int (length (clusterRows (hoverCluster g) x))\<rparr>"
proof -
  from assms have x: "x < length (board g)" by (simp add: wellShaped_def)
  have "refill x (removeCells x g) =
          g\<lparr>board := (board g)[x := fallen g x],
            numCells := numCells g - int (length (clusterRows (hoverCluster g) x))\<rparr>"
    using x by (simp add: refill_removeCells fallen_eq)
  then show ?thesis
    by (simp add: clickColumn_eq(1) [OF assms] Let_def)
qed

lemma settledFrom_step:
  assumes "wellShaped g" and "n < width g"
  defines "S \<equiv> settledFrom (Suc n) g"
  shows "S ! n = board g ! n"
    and "emptyColumn (fallen g n) \<Longrightarrow>
           take n S @ drop (Suc n) S @ [replicate (height g) emptyCell] = settledFrom n g"
    and "\<not> emptyColumn (fallen g n) \<Longrightarrow> S[n := fallen g n] = settledFrom n g"
proof -
  let ?b = "board g" and ?E = "replicate (height g) emptyCell"
  let ?K = "filter (\<lambda>col. \<not> emptyColumn col) (map (fallen g) [Suc n..<width g])"
  let ?c = "width g - Suc n - length ?K"
  from assms have w: "length ?b = width g" by (simp add: wellShaped_def)
  have "length ?K \<le> length (map (fallen g) [Suc n..<width g])" by (rule length_filter_le)
  then have lk: "length ?K \<le> width g - Suc n" by simp
  have S: "S = take (Suc n) ?b @ ?K @ replicate ?c ?E"
    by (simp add: S_def settledFrom_def Let_def)
  have tk: "take (Suc n) ?b = take n ?b @ [?b ! n]"
    using assms(2) w by (simp add: take_Suc_conv_app_nth)
  have ln: "length (take n ?b) = n" using assms(2) w by simp
  have S2: "S = take n ?b @ (?b ! n) # ?K @ replicate ?c ?E"
    by (simp add: S tk)
  show "S ! n = ?b ! n"
    using ln by (simp add: S2 nth_append)
  have upt: "[n..<width g] = n # [Suc n..<width g]"
    using assms(2) by (simp add: upt_conv_Cons)
  have tS: "take n S = take n ?b" using ln by (simp add: S2)
  have dS: "drop (Suc n) S = ?K @ replicate ?c ?E" using ln by (simp add: S2)
  show "take n S @ drop (Suc n) S @ [?E] = settledFrom n g" if "emptyColumn (fallen g n)"
  proof -
    have "width g - n - length ?K = Suc ?c" using lk assms(2) by simp
    then have "settledFrom n g = take n ?b @ ?K @ replicate (Suc ?c) ?E"
      using that by (simp add: settledFrom_def Let_def upt)
    also have "replicate (Suc ?c) ?E = replicate ?c ?E @ [?E]"
      by (simp add: replicate_append_same)
    finally show ?thesis by (simp add: tS dS)
  qed
  show "S[n := fallen g n] = settledFrom n g" if "\<not> emptyColumn (fallen g n)"
  proof -
    have "width g - n - Suc (length ?K) = ?c" by simp
    then have "settledFrom n g = take n ?b @ fallen g n # ?K @ replicate ?c ?E"
      using that by (simp add: settledFrom_def Let_def upt)
    moreover have "S[n := fallen g n] = take n ?b @ fallen g n # ?K @ replicate ?c ?E"
      using ln by (simp add: S2 list_update_append)
    ultimately show ?thesis by simp
  qed
qed

lemma clickColumns_from:
  assumes "wellShaped g" and "tidyBoard g" and "m \<le> width g"
  shows "fold clickColumn (rev [m..<width g]) g =
           g\<lparr>board := settledFrom m g, numCells := numCells g - removedFrom m g\<rparr>"
  using assms(3)
proof (induction rule: inc_induct)
  case base
  have "settledFrom (width g) g = board g"
    using assms(1) by (simp add: settledFrom_def wellShaped_def)
  then show ?case by (simp add: removedFrom_def)
next
  case (step n)
  let ?g' = "g\<lparr>board := settledFrom (Suc n) g, numCells := numCells g - removedFrom (Suc n) g\<rparr>"
  have upt: "[n..<width g] = n # [Suc n..<width g]"
    using step.hyps by (simp add: upt_conv_Cons)
  have fold: "fold clickColumn (rev [n..<width g]) g = clickColumn n ?g'"
    using step.IH by (simp add: upt)
  from step.hyps have sn: "Suc n \<le> width g" by simp
  have ws: "wellShaped ?g'"
    using settledFrom_shape [OF assms(1) sn] by (simp add: wellShaped_def list_all_length)
  have td: "tidyBoard ?g'"
    using settledFrom_tidy [OF assms(1,2), of "Suc n"] by (simp add: tidyBoard_def)
  have n': "n < width ?g'" using step.hyps by simp
  have nb: "n < length (board g)" "n < length (board ?g')"
    using assms(1) ws step.hyps by (simp_all add: wellShaped_def)
  have col: "board ?g' ! n = board g ! n"
    using settledFrom_step(1) [OF assms(1) step.hyps(2)] by simp
  have fl: "fallen ?g' n = fallen g n"
    using nb col by (simp add: fallen_eq)
  have rm: "removedFrom n g = removedFrom (Suc n) g + int (length (clusterRows (hoverCluster g) n))"
    by (simp add: removedFrom_def upt)
  show ?case
  proof (cases "emptyColumn (fallen g n)")
    case True
    with settledFrom_step(2) [OF assms(1) step.hyps(2)]
    have "take n (settledFrom (Suc n) g) @ drop (Suc n) (settledFrom (Suc n) g)
            @ [replicate (height g) emptyCell] = settledFrom n g" by simp
    with True show ?thesis
      unfolding fold clickColumn_record [OF ws td n'] fl by (simp add: rm)
  next
    case False
    with settledFrom_step(3) [OF assms(1) step.hyps(2)]
    have "(settledFrom (Suc n) g)[n := fallen g n] = settledFrom n g" by simp
    with False show ?thesis
      unfolding fold clickColumn_record [OF ws td n'] fl by (simp add: rm)
  qed
qed

lemma clickColumns_eq:
  assumes "wellShaped g" and "tidyBoard g"
  shows "clickColumns g = g\<lparr>board := settled g, numCells := numCells g - removedFrom 0 g\<rparr>"
proof -
  have "settledFrom 0 g = settled g"
    by (simp add: settledFrom_def settled_def)
  with clickColumns_from [OF assms, of 0] show ?thesis
    by (simp add: clickColumns_def)
qed

text \<open>
  C3. On a board of \<open>width\<close> columns of \<open>height\<close> cells whose cells hold the empty array
  exactly when they are empty: when column \<open>x\<close> has no coloured cell left after its
  cells are removed and it is refilled, the columns to its right move one step to the
  left and the rightmost column becomes a column of empty cells; otherwise only column
  \<open>x\<close> changes. The loop runs from the rightmost column to the leftmost, and the board it
  leaves is: the columns that keep a coloured cell, each as its own removal left it, in
  their order, followed by empty columns.
\<close>

theorem compaction:
  assumes "wellShaped g" and "tidyBoard g"
  shows "(\<forall>x < width g.
            board (clickColumn x g) =
              (if emptyColumn (fallen g x)
               then take x (board g) @ drop (Suc x) (board g) @ [replicate (height g) emptyCell]
               else (board g)[x := fallen g x])) \<and>
         clickColumns g = fold clickColumn (rev [0..<width g]) g \<and>
         board (clickColumns g) = settled g"
proof -
  have "board (clickColumn x g) =
          (if emptyColumn (fallen g x)
           then take x (board g) @ drop (Suc x) (board g) @ [replicate (height g) emptyCell]
           else (board g)[x := fallen g x])" if "x < width g" for x
    by (simp add: clickColumn_record [OF assms that])
  moreover have "board (clickColumns g) = settled g"
    by (simp add: clickColumns_eq [OF assms])
  ultimately show ?thesis
    by (simp add: clickColumns_def)
qed

theorem compaction_witness:
  "wellShaped greenRedBlue \<and> tidyBoard greenRedBlue \<and>
   emptyColumn (fallen greenRedBlue 1) \<and>
   board (clickColumn 1 greenRedBlue) =
     [[\<lparr>color = Named ''green'', cluster = [(0, 0)]\<rparr>,
       \<lparr>color = Named ''red'', cluster = [(1, 0), (1, 1), (2, 1), (0, 1)]\<rparr>],
      [\<lparr>color = Named ''blue'', cluster = [(2, 0)]\<rparr>,
       \<lparr>color = Named ''red'', cluster = [(1, 0), (1, 1), (2, 1), (0, 1)]\<rparr>],
      [emptyCell, emptyCell]] \<and>
   board (clickColumns greenRedBlue) =
     [[emptyCell, \<lparr>color = Named ''green'', cluster = [(0, 0)]\<rparr>],
      [emptyCell, \<lparr>color = Named ''blue'', cluster = [(2, 0)]\<rparr>],
      [emptyCell, emptyCell]]"
proof -
  have h: "wellShaped greenRedBlue" "tidyBoard greenRedBlue"
    by (simp_all add: greenRedBlue_def wellShaped_def tidyBoard_def tidy_def)
  have e: "emptyColumn (fallen greenRedBlue 1)"
    by code_simp
  have s: "settled greenRedBlue =
     [[emptyCell, \<lparr>color = Named ''green'', cluster = [(0, 0)]\<rparr>],
      [emptyCell, \<lparr>color = Named ''blue'', cluster = [(2, 0)]\<rparr>],
      [emptyCell, emptyCell]]"
    by code_simp
  have w: "1 < width greenRedBlue" "height greenRedBlue = 2"
    by (simp_all add: greenRedBlue_def)
  have t: "take 1 (board greenRedBlue) @ drop (Suc 1) (board greenRedBlue)
             @ [replicate 2 emptyCell] =
     [[\<lparr>color = Named ''green'', cluster = [(0, 0)]\<rparr>,
       \<lparr>color = Named ''red'', cluster = [(1, 0), (1, 1), (2, 1), (0, 1)]\<rparr>],
      [\<lparr>color = Named ''blue'', cluster = [(2, 0)]\<rparr>,
       \<lparr>color = Named ''red'', cluster = [(1, 0), (1, 1), (2, 1), (0, 1)]\<rparr>],
      [emptyCell, emptyCell]]"
    by (simp add: greenRedBlue_def numeral_2_eq_2)
  from compaction [OF h] have
    one: "\<forall>x < width greenRedBlue.
            board (clickColumn x greenRedBlue) =
              (if emptyColumn (fallen greenRedBlue x)
               then take x (board greenRedBlue) @ drop (Suc x) (board greenRedBlue)
                    @ [replicate (height greenRedBlue) emptyCell]
               else (board greenRedBlue)[x := fallen greenRedBlue x])"
    and all: "board (clickColumns greenRedBlue) = settled greenRedBlue"
    by blast+
  from one [rule_format, OF w(1)] e have
    "board (clickColumn 1 greenRedBlue) =
       take 1 (board greenRedBlue) @ drop (Suc 1) (board greenRedBlue) @ [replicate 2 emptyCell]"
    by (simp add: w(2))
  with t all s h e show ?thesis by simp
qed


section \<open>The score after a click, and coordinates off the board\<close>

lemma removeCell_fold_fields [simp]:
  "score (fold (removeCell x) ys g) = score g"
  "hoverCluster (fold (removeCell x) ys g) = hoverCluster g"
  "width (fold (removeCell x) ys g) = width g"
  "height (fold (removeCell x) ys g) = height g"
  by (induction ys arbitrary: g) (simp_all add: removeCell_def)

lemma clickColumn_fields [simp]:
  "score (clickColumn x g) = score g"
  "hoverCluster (clickColumn x g) = hoverCluster g"
  "width (clickColumn x g) = width g"
  "height (clickColumn x g) = height g"
  by (simp_all add: clickColumn_def refill_def removeCells_def Let_def)

lemma fold_clickColumn_fields [simp]:
  "score (fold clickColumn xs g) = score g"
  "hoverCluster (fold clickColumn xs g) = hoverCluster g"
  "width (fold clickColumn xs g) = width g"
  "height (fold clickColumn xs g) = height g"
  by (induction xs arbitrary: g) simp_all

lemma clickColumns_fields [simp]:
  "score (clickColumns g) = score g"
  "hoverCluster (clickColumns g) = hoverCluster g"
  "width (clickColumns g) = width g"
  "height (clickColumns g) = height g"
  by (simp_all add: clickColumns_def)

lemma updateClusters_fields:
  assumes "updateClusters g = Inr g'"
  shows "g' = g\<lparr>board := board g'\<rparr>"
  using assms by (auto simp: updateClusters_def Let_def split: sum.splits if_splits)

lemma updateGame_final:
  "\<exists>b. final (updateGame g) =
         (g\<lparr>score := score g + int (length (hoverCluster g)) * int (length (hoverCluster g)),
            scoreLeft := max ((50 - numCells g) * 100) 0,
            scoreTotal := score g + int (length (hoverCluster g)) * int (length (hoverCluster g))
                          + max ((50 - numCells g) * 100) 0,
            hoverCluster := [],
            hoverScore := hoverScore (handleOut g),
            board := b\<rparr>)"
proof -
  let ?g1 = "handleOut g"
  let ?g2 = "updateScore (int (length (hoverCluster ?g1))) ?g1"
  let ?g3 = "?g2\<lparr>hoverCluster := []\<rparr>"
  have g1: "?g1 = g\<lparr>hoverScore := hoverScore ?g1\<rparr>"
    by (simp add: handleOut_eq updateHoverScore_def)
  have g3: "?g3 = g\<lparr>score := score g + int (length (hoverCluster g)) * int (length (hoverCluster g)),
            scoreLeft := max ((50 - numCells g) * 100) 0,
            scoreTotal := score g + int (length (hoverCluster g)) * int (length (hoverCluster g))
                          + max ((50 - numCells g) * 100) 0,
            hoverCluster := [],
            hoverScore := hoverScore (handleOut g),
            board := board g\<rparr>"
    by (subst (1 2) g1) (simp add: updateScore_def Let_def)
  show ?thesis
  proof (cases "updateClusters ?g3")
    case (Inl e)
    then have "final (updateGame g) = ?g3"
      by (simp add: updateGame_def Let_def)
    with g3 show ?thesis by metis
  next
    case (Inr g4)
    then have "final (updateGame g) = g4"
      by (simp add: updateGame_def Let_def)
    moreover from updateClusters_fields [OF Inr] have "g4 = ?g3\<lparr>board := board g4\<rparr>" .
    ultimately have "final (updateGame g) = ?g3\<lparr>board := board g4\<rparr>" by simp
    then show ?thesis by (subst (asm) g3) (auto intro: exI [of _ "board g4"])
  qed
qed


lemma handleClick_final:
  fixes g ox oy
  assumes "2 \<le> length (hoverCluster g)"
  defines "u \<equiv> final (updateGame (clickColumns g))"
  defines "f \<equiv> final (handleClick ox oy g)"
  shows "score f = score u" "numCells f = numCells u" "scoreLeft f = scoreLeft u"
    "scoreTotal f = scoreTotal u" "board f = board u" "width f = width u" "height f = height u"
proof -
  have "score f = score u \<and> numCells f = numCells u \<and> scoreLeft f = scoreLeft u \<and>
    scoreTotal f = scoreTotal u \<and> board f = board u \<and> width f = width u \<and> height f = height u"
  proof (cases "updateGame (clickColumns g)")
    case (Inl a)
    then show ?thesis
      using assms(1) by (cases a) (simp add: f_def u_def handleClick_def)
  next
    case (Inr g')
    then show ?thesis
      using assms(1) by (simp add: f_def u_def handleClick_def)
  qed
  then show "score f = score u" "numCells f = numCells u" "scoreLeft f = scoreLeft u"
    "scoreTotal f = scoreTotal u" "board f = board u" "width f = width u" "height f = height u"
    by simp_all
qed

lemma handleClick_score_mono: "score g \<le> score (final (handleClick ox oy g))"
proof (cases "2 \<le> length (hoverCluster g)")
  case True
  obtain b where "final (updateGame (clickColumns g)) =
         ((clickColumns g)\<lparr>score := score (clickColumns g) + int (length (hoverCluster (clickColumns g))) * int (length (hoverCluster (clickColumns g))),
            scoreLeft := max ((50 - numCells (clickColumns g)) * 100) 0,
            scoreTotal := score (clickColumns g) + int (length (hoverCluster (clickColumns g))) * int (length (hoverCluster (clickColumns g)))
                          + max ((50 - numCells (clickColumns g)) * 100) 0,
            hoverCluster := [],
            hoverScore := hoverScore (handleOut (clickColumns g)),
            board := b\<rparr>)"
    using updateGame_final [of "clickColumns g"] by blast
  then have "score (final (updateGame (clickColumns g)))
               = score g + int (length (hoverCluster g)) * int (length (hoverCluster g))"
    by simp
  with handleClick_final(1) [OF True, of ox oy] show ?thesis by simp
next
  case False
  then show ?thesis by (simp add: handleClick_def)
qed

lemma reaches_score: "reaches g g' \<Longrightarrow> score g \<le> score g'"
proof (induction rule: reaches.induct)
  case (start g)
  show ?case by simp
next
  case (hover g g1 x y)
  then show ?case by simp
next
  case (out g g1)
  then show ?case by simp
next
  case (click g g1 x y)
  from click.IH handleClick_score_mono [of g1 x y] show ?case by (rule order_trans)
qed

text \<open>
  C6. When \<open>handleClick\<close> removes the hovered cluster, of \<open>n\<close> cells, the session it
  leaves (whether its last step, the hover at the clicked cell, returns or throws) has
  its score raised by \<open>n * n\<close>, \<open>scoreLeft\<close> equal to \<open>max 0 ((50 - numCells) * 100)\<close> for
  the new number of cells, and \<open>scoreTotal = score + scoreLeft\<close>. No sequence of handler
  calls lowers the score.
\<close>

theorem handleClick_score:
  "(2 \<le> length (hoverCluster g) \<longrightarrow>
      score (final (handleClick ox oy g))
        = score g + int (length (hoverCluster g)) * int (length (hoverCluster g)) \<and>
      scoreLeft (final (handleClick ox oy g))
        = max 0 ((50 - numCells (final (handleClick ox oy g))) * 100) \<and>
      scoreTotal (final (handleClick ox oy g))
        = score (final (handleClick ox oy g)) + scoreLeft (final (handleClick ox oy g))) \<and>
   (\<forall>g'. reaches g g' \<longrightarrow> score g \<le> score g')"
proof -
  have "score (final (handleClick ox oy g))
        = score g + int (length (hoverCluster g)) * int (length (hoverCluster g)) \<and>
      scoreLeft (final (handleClick ox oy g))
        = max 0 ((50 - numCells (final (handleClick ox oy g))) * 100) \<and>
      scoreTotal (final (handleClick ox oy g))
        = score (final (handleClick ox oy g)) + scoreLeft (final (handleClick ox oy g))"
    if h: "2 \<le> length (hoverCluster g)"
  proof -
    let ?c = "clickColumns g"
    obtain b where u: "final (updateGame ?c) =
         (?c\<lparr>score := score ?c + int (length (hoverCluster ?c)) * int (length (hoverCluster ?c)),
            scoreLeft := max ((50 - numCells ?c) * 100) 0,
            scoreTotal := score ?c + int (length (hoverCluster ?c)) * int (length (hoverCluster ?c))
                          + max ((50 - numCells ?c) * 100) 0,
            hoverCluster := [],
            hoverScore := hoverScore (handleOut ?c),
            board := b\<rparr>)"
      using updateGame_final [of ?c] by blast
    have "score (final (updateGame ?c))
            = score g + int (length (hoverCluster g)) * int (length (hoverCluster g))"
      "numCells (final (updateGame ?c)) = numCells ?c"
      "scoreLeft (final (updateGame ?c)) = max 0 ((50 - numCells ?c) * 100)"
      "scoreTotal (final (updateGame ?c))
         = score (final (updateGame ?c)) + scoreLeft (final (updateGame ?c))"
      unfolding u by (simp_all add: max.commute)
    then show ?thesis
      by (simp add: handleClick_final [OF h])
  qed
  then show ?thesis
    using reaches_score by blast
qed

theorem handleClick_score_witness:
  "2 \<le> length (hoverCluster twoRedsHovered) \<and>
   score (final (handleClick 0 0 twoRedsHovered)) = 4 \<and>
   numCells (final (handleClick 0 0 twoRedsHovered)) = 0 \<and>
   scoreLeft (final (handleClick 0 0 twoRedsHovered)) = 5000 \<and>
   scoreTotal (final (handleClick 0 0 twoRedsHovered)) = 5004 \<and>
   reaches twoRedsHovered (final (handleClick 0 0 twoRedsHovered)) \<and>
   score twoRedsHovered \<le> score (final (handleClick 0 0 twoRedsHovered))"
proof -
  have h: "2 \<le> length (hoverCluster twoRedsHovered)"
    by (simp add: twoRedsHovered_def)
  have n: "numCells (final (handleClick 0 0 twoRedsHovered)) = 0"
    by code_simp
  have s: "score twoRedsHovered = 0" "int (length (hoverCluster twoRedsHovered)) = 2"
    by (simp_all add: twoRedsHovered_def twoReds_def)
  have r: "reaches twoRedsHovered (final (handleClick 0 0 twoRedsHovered))"
    by (intro reaches.click reaches.start)
  from handleClick_score [of twoRedsHovered 0 0] h r
  have "score (final (handleClick 0 0 twoRedsHovered)) = 4"
    "scoreLeft (final (handleClick 0 0 twoRedsHovered)) = 5000"
    "scoreTotal (final (handleClick 0 0 twoRedsHovered)) = 5004"
    "score twoRedsHovered \<le> score (final (handleClick 0 0 twoRedsHovered))"
    by (simp_all add: n s)
  with h n r show ?thesis by simp
qed

section \<open>The clusters that updateClusters computes\<close>

text \<open>
  The search of \<open>updateClusters\<close> ends without an error on every board of \<open>width\<close>
  columns of \<open>height\<close> cells, and leaves in each cell the list of the cells connected
  to it through adjacent cells of the same colour.
\<close>

text \<open>A coordinate of the board.\<close>

definition onBoard :: "nat \<Rightarrow> nat \<Rightarrow> coord \<Rightarrow> bool" where
  "onBoard w h p = (0 \<le> fst p \<and> fst p < int w \<and> 0 \<le> snd p \<and> snd p < int h)"

text \<open>Two coordinates that differ by one step to the left, to the right, up or down.\<close>

definition adjacent :: "coord \<Rightarrow> coord \<Rightarrow> bool" where
  "adjacent p q = ((fst p = fst q \<and> \<bar>snd p - snd q\<bar> = 1) \<or> (snd p = snd q \<and> \<bar>fst p - fst q\<bar> = 1))"

text \<open>Two adjacent cells of the board that have the same colour; \<open>cf\<close> gives the
  colour at a coordinate.\<close>

definition links :: "nat \<Rightarrow> nat \<Rightarrow> (coord \<Rightarrow> color) \<Rightarrow> (coord \<times> coord) set" where
  "links w h cf = {(p, q). onBoard w h p \<and> onBoard w h q \<and> adjacent p q \<and> cf p = cf q}"

text \<open>The cells reached from \<open>p\<close> through adjacent cells of the same colour.\<close>

definition groupOf :: "nat \<Rightarrow> nat \<Rightarrow> (coord \<Rightarrow> color) \<Rightarrow> coord \<Rightarrow> coord set" where
  "groupOf w h cf p = {q. (p, q) \<in> (links w h cf)\<^sup>*}"

text \<open>The cell at a coordinate, \<^verbatim>\<open>this.board[x][y]\<close>.\<close>

definition rat :: "'a list list \<Rightarrow> coord \<Rightarrow> 'a" where
  "rat b p = b ! nat (fst p) ! nat (snd p)"

text \<open>\<open>w\<close> columns of \<open>h\<close> cells.\<close>

definition shaped :: "nat \<Rightarrow> nat \<Rightarrow> 'a list list \<Rightarrow> bool" where
  "shaped w h b = (length b = w \<and> (\<forall>x < w. length (b ! x) = h))"

lemma adjacent_sym: "adjacent p q \<Longrightarrow> adjacent q p"
  by (auto simp: adjacent_def)

lemma links_sym: "sym (links w h cf)"
  by (auto simp: sym_def links_def dest: adjacent_sym)

lemma groupOf_refl: "p \<in> groupOf w h cf p"
  by (simp add: groupOf_def)

lemma groupOf_sym: "q \<in> groupOf w h cf p \<Longrightarrow> p \<in> groupOf w h cf q"
  using links_sym [of w h cf] by (simp add: groupOf_def sym_rtrancl symD)

lemma groupOf_trans: "q \<in> groupOf w h cf p \<Longrightarrow> s \<in> groupOf w h cf q \<Longrightarrow> s \<in> groupOf w h cf p"
  by (simp add: groupOf_def)

lemma groupOf_eq: "q \<in> groupOf w h cf p \<Longrightarrow> groupOf w h cf q = groupOf w h cf p"
  by (auto intro: groupOf_trans groupOf_sym)

lemma groupOf_step: "q \<in> groupOf w h cf p \<Longrightarrow> (q, s) \<in> links w h cf \<Longrightarrow> s \<in> groupOf w h cf p"
  by (simp add: groupOf_def)

lemma groupOf_props:
  assumes "q \<in> groupOf w h cf p"
  shows "cf q = cf p" and "onBoard w h p \<Longrightarrow> onBoard w h q"
proof -
  from assms have "(p, q) \<in> (links w h cf)\<^sup>*" by (simp add: groupOf_def)
  then have "cf q = cf p \<and> (onBoard w h p \<longrightarrow> onBoard w h q)"
    by (induction rule: rtrancl_induct) (auto simp: links_def)
  then show "cf q = cf p" and "onBoard w h p \<Longrightarrow> onBoard w h q" by simp_all
qed

lemma groupOf_closed:
  assumes "p \<in> A" and "\<And>a q. a \<in> A \<Longrightarrow> (a, q) \<in> links w h cf \<Longrightarrow> q \<in> A"
  shows "groupOf w h cf p \<subseteq> A"
proof
  fix q assume "q \<in> groupOf w h cf p"
  then have "(p, q) \<in> (links w h cf)\<^sup>*" by (simp add: groupOf_def)
  then show "q \<in> A"
    by (induction rule: rtrancl_induct) (auto intro: assms)
qed

lemma cellAt_onBoard:
  assumes "shaped w h b" and "onBoard w h p"
  shows "cellAt b (fst p) (snd p) = Some (rat b p)"
  using assms by (auto simp: cellAt_def shaped_def onBoard_def rat_def)

lemma rat_setCluster:
  assumes "shaped w h b" and "onBoard w h p" and "onBoard w h e"
  shows "rat (setCluster b (nat (fst e)) (nat (snd e)) r) p =
           (if p = e then (rat b e)\<lparr>rcluster := Some r\<rparr> else rat b p)"
proof -
  from assms have "nat (fst p) < length b" "nat (snd p) < length (b ! nat (fst p))"
    by (auto simp: shaped_def onBoard_def)
  moreover have "(nat (fst p) = nat (fst e) \<and> nat (snd p) = nat (snd e)) = (p = e)"
    using assms(2,3) by (auto simp: onBoard_def prod_eq_iff)
  ultimately show ?thesis
    by (simp add: rat_def setCluster_nth)
qed

lemma shaped_setCluster: "shaped w h b \<Longrightarrow> shaped w h (setCluster b x y r)"
  by (simp add: shaped_def)

lemma adjacent_cases:
  "adjacent (ox, oy) q = (q = (ox, oy + 1) \<or> q = (ox, oy - 1) \<or> q = (ox + 1, oy) \<or> q = (ox - 1, oy))"
  by (cases q) (auto simp: adjacent_def)

text \<open>The array \<open>q\<close> held by the cell at \<open>p\<close> is complete: it is empty when the cell
  is empty, and otherwise lists the group of \<open>p\<close>, each cell once, and every cell of the
  group holds this same array.\<close>

definition settledRef :: "nat \<Rightarrow> nat \<Rightarrow> (coord \<Rightarrow> color) \<Rightarrow> rcell list list \<Rightarrow> store \<Rightarrow> coord \<Rightarrow> nat \<Rightarrow> bool" where
  "settledRef w h cf b st p q =
     (if cf p = Null then st q = []
      else distinct (st q) \<and> set (st q) = groupOf w h cf p \<and>
           (\<forall>p' \<in> groupOf w h cf p. rcluster (rat b p') = Some q))"

text \<open>The invariants of the search. The colours never change, and the cells of \<open>D\<close>,
  those the scan has passed, hold an array.\<close>

definition boardInv :: "nat \<Rightarrow> nat \<Rightarrow> (coord \<Rightarrow> color) \<Rightarrow> coord set \<Rightarrow> rcell list list \<Rightarrow> bool" where
  "boardInv w h cf D b =
     (shaped w h b \<and>
      (\<forall>p. onBoard w h p \<longrightarrow> rcolor (rat b p) = cf p) \<and>
      (\<forall>p \<in> D. onBoard w h p \<and> rcluster (rat b p) \<noteq> None))"

text \<open>Every array other than \<open>r\<close>, the one under construction, is complete.\<close>

definition doneInv :: "nat \<Rightarrow> nat \<Rightarrow> (coord \<Rightarrow> color) \<Rightarrow> nat \<Rightarrow> rcell list list \<Rightarrow> store \<Rightarrow> bool" where
  "doneInv w h cf r b st =
     (\<forall>p q. onBoard w h p \<longrightarrow> rcluster (rat b p) = Some q \<longrightarrow> q \<noteq> r \<longrightarrow>
            q < r \<and> settledRef w h cf b st p q)"

text \<open>The array \<open>r\<close> of the search started at \<open>p0\<close> lists cells of the group of \<open>p0\<close>,
  each once; the cells that hold it are those it lists, and \<open>p0\<close> itself.\<close>

definition ownInv :: "nat \<Rightarrow> nat \<Rightarrow> (coord \<Rightarrow> color) \<Rightarrow> coord \<Rightarrow> nat \<Rightarrow> rcell list list \<Rightarrow> store \<Rightarrow> bool" where
  "ownInv w h cf p0 r b st =
     (onBoard w h p0 \<and> cf p0 \<noteq> Null \<and>
      distinct (st r) \<and> set (st r) \<subseteq> groupOf w h cf p0 \<and>
      (\<forall>p. onBoard w h p \<longrightarrow> (rcluster (rat b p) = Some r) = (p \<in> set (st r) \<or> p = p0)))"

text \<open>The stack holds \<open>p0\<close> until it is listed, and every neighbour of a listed cell
  that is not listed yet.\<close>

definition stackInv :: "nat \<Rightarrow> nat \<Rightarrow> (coord \<Rightarrow> color) \<Rightarrow> coord \<Rightarrow> nat \<Rightarrow> coord list \<Rightarrow> store \<Rightarrow> bool" where
  "stackInv w h cf p0 r stack st =
     ((p0 \<in> set (st r) \<or> (st r = [] \<and> p0 \<in> set stack)) \<and>
      (\<forall>p \<in> set (st r). \<forall>q. (p, q) \<in> links w h cf \<longrightarrow> q \<in> set (st r) \<or> q \<in> set stack) \<and>
      (\<forall>q \<in> set stack. q = p0 \<or> (\<exists>p \<in> set (st r). adjacent p q)))"

text \<open>The invariant of the \<^verbatim>\<open>while\<close> loop.\<close>

definition dfsInv :: "nat \<Rightarrow> nat \<Rightarrow> (coord \<Rightarrow> color) \<Rightarrow> coord set \<Rightarrow> coord \<Rightarrow> nat \<Rightarrow> coord list
                       \<Rightarrow> rcell list list \<Rightarrow> store \<Rightarrow> bool" where
  "dfsInv w h cf D p0 r stack b st =
     (boardInv w h cf D b \<and> doneInv w h cf r b st \<and> ownInv w h cf p0 r b st \<and>
      stackInv w h cf p0 r stack st)"

lemma dfsInv_drop:
  assumes inv: "dfsInv w h cf D p0 r (e # rest) b st"
    and nw: "\<not> (onBoard w h e \<and> \<not> hasCluster st (rat b e) \<and> cf e = cf p0)"
  shows "dfsInv w h cf D p0 r rest b st"
proof -
  from inv have bi: "boardInv w h cf D b" and di: "doneInv w h cf r b st"
    and oi: "ownInv w h cf p0 r b st" and si: "stackInv w h cf p0 r (e # rest) st"
    by (simp_all add: dfsInv_def)
  from oi have p0: "onBoard w h p0" "cf p0 \<noteq> Null"
    and sub: "set (st r) \<subseteq> groupOf w h cf p0"
    and own: "\<And>p. onBoard w h p \<Longrightarrow> (rcluster (rat b p) = Some r) = (p \<in> set (st r) \<or> p = p0)"
    unfolding ownInv_def by blast+
  from di have sett: "\<And>p q. onBoard w h p \<Longrightarrow> rcluster (rat b p) = Some q \<Longrightarrow> q \<noteq> r \<Longrightarrow>
                 settledRef w h cf b st p q"
    unfolding doneInv_def by blast
  from si have root: "p0 \<in> set (st r) \<or> (st r = [] \<and> p0 \<in> set (e # rest))"
    and front: "\<And>p q. p \<in> set (st r) \<Longrightarrow> (p, q) \<in> links w h cf \<Longrightarrow>
                  q \<in> set (st r) \<or> q \<in> set (e # rest)"
    and near: "\<forall>q \<in> set (e # rest). q = p0 \<or> (\<exists>p \<in> set (st r). adjacent p q)"
    unfolding stackInv_def by blast+
  have root': "p0 \<in> set (st r) \<or> (st r = [] \<and> p0 \<in> set rest)"
  proof (cases "p0 \<in> set (st r)")
    case True
    then show ?thesis by simp
  next
    case False
    with root have e: "st r = []" "p0 \<in> set (e # rest)" by auto
    have "e \<noteq> p0"
    proof
      assume "e = p0"
      moreover from own [OF p0(1)] have "rcluster (rat b p0) = Some r" by simp
      with e(1) have "\<not> hasCluster st (rat b p0)" by (simp add: hasCluster_def)
      ultimately show False using nw p0(1) by simp
    qed
    with e show ?thesis by auto
  qed
  have front': "q \<in> set (st r) \<or> q \<in> set rest"
    if p: "p \<in> set (st r)" and l: "(p, q) \<in> links w h cf" for p q
  proof (cases "q = e")
    case False
    with front [OF p l] show ?thesis by auto
  next
    case True
    from p sub have pg: "p \<in> groupOf w h cf p0" by auto
    then have cp: "cf p = cf p0" and pb: "onBoard w h p"
      using p0(1) by (auto dest: groupOf_props)
    from l True have eb: "onBoard w h e" and ce: "cf e = cf p" by (auto simp: links_def)
    with nw cp have hc: "hasCluster st (rat b e)" by simp
    then obtain q' where q': "rcluster (rat b e) = Some q'" "st q' \<noteq> []"
      by (auto simp: hasCluster_def split: option.splits)
    have pr: "rcluster (rat b p) = Some r" using own [OF pb] p by simp
    have "q' = r"
    proof (rule ccontr)
      assume ne: "q' \<noteq> r"
      from sett [OF eb q'(1) ne] ce cp p0(2)
      have all: "\<forall>p' \<in> groupOf w h cf e. rcluster (rat b p') = Some q'"
        by (simp add: settledRef_def)
      from l True have "(e, p) \<in> links w h cf"
        using links_sym [of w h cf] by (auto dest: symD)
      then have "p \<in> groupOf w h cf e" by (auto simp: groupOf_def)
      with all pr ne show False by auto
    qed
    with q'(1) own [OF eb] have "e \<in> set (st r) \<or> e = p0" by simp
    moreover from p root have "p0 \<in> set (st r)" by auto
    ultimately show ?thesis using True by auto
  qed
  from near have near': "\<forall>q \<in> set rest. q = p0 \<or> (\<exists>p \<in> set (st r). adjacent p q)"
    by simp
  from root' front' near' have "stackInv w h cf p0 r rest st"
    unfolding stackInv_def by blast
  with bi di oi show ?thesis by (simp add: dfsInv_def)
qed

lemma dfsInv_push:
  assumes inv: "dfsInv w h cf D p0 r (e # rest) b st"
    and eb: "onBoard w h e" and nc: "\<not> hasCluster st (rat b e)" and ce: "cf e = cf p0"
  shows "dfsInv w h cf D p0 r
           ((fst e, snd e + 1) # (fst e, snd e - 1) # (fst e + 1, snd e) # (fst e - 1, snd e) # rest)
           (setCluster b (nat (fst e)) (nat (snd e)) r) (st(r := st r @ [e]))"
proof -
  let ?b = "setCluster b (nat (fst e)) (nat (snd e)) r" and ?st = "st(r := st r @ [e])"
  let ?stack = "(fst e, snd e + 1) # (fst e, snd e - 1) # (fst e + 1, snd e) # (fst e - 1, snd e) # rest"
  from inv have bi: "boardInv w h cf D b" and di: "doneInv w h cf r b st"
    and oi: "ownInv w h cf p0 r b st" and si: "stackInv w h cf p0 r (e # rest) st"
    by (simp_all add: dfsInv_def)
  from bi have sh: "shaped w h b"
    and cols: "\<And>p. onBoard w h p \<Longrightarrow> rcolor (rat b p) = cf p"
    and dn: "\<And>p. p \<in> D \<Longrightarrow> onBoard w h p \<and> rcluster (rat b p) \<noteq> None"
    unfolding boardInv_def by blast+
  from di have sett: "\<And>p q. onBoard w h p \<Longrightarrow> rcluster (rat b p) = Some q \<Longrightarrow> q \<noteq> r \<Longrightarrow>
                 q < r \<and> settledRef w h cf b st p q"
    unfolding doneInv_def by blast
  from oi have p0: "onBoard w h p0" "cf p0 \<noteq> Null"
    and dist: "distinct (st r)"
    and sub: "set (st r) \<subseteq> groupOf w h cf p0"
    and own: "\<And>p. onBoard w h p \<Longrightarrow> (rcluster (rat b p) = Some r) = (p \<in> set (st r) \<or> p = p0)"
    unfolding ownInv_def by blast+
  from si have root: "p0 \<in> set (st r) \<or> (st r = [] \<and> p0 \<in> set (e # rest))"
    and front: "\<And>p q. p \<in> set (st r) \<Longrightarrow> (p, q) \<in> links w h cf \<Longrightarrow>
                  q \<in> set (st r) \<or> q \<in> set (e # rest)"
    and near: "\<And>q. q \<in> set (e # rest) \<Longrightarrow> q = p0 \<or> (\<exists>p \<in> set (st r). adjacent p q)"
    unfolding stackInv_def by blast+
  have rat': "rat ?b p = (if p = e then (rat b e)\<lparr>rcluster := Some r\<rparr> else rat b p)"
    if "onBoard w h p" for p
    using sh that eb by (rule rat_setCluster)
  have enew: "e \<notin> set (st r)"
  proof
    assume "e \<in> set (st r)"
    then have "rcluster (rat b e) = Some r" "st r \<noteq> []" using own [OF eb] by auto
    with nc show False by (simp add: hasCluster_def)
  qed
  have eroot: "e = p0 \<or> (\<exists>p \<in> set (st r). adjacent p e)"
    using near [of e] by simp
  have eg: "e \<in> groupOf w h cf p0"
  proof (cases "e = p0")
    case True
    then show ?thesis by (simp add: groupOf_refl)
  next
    case False
    with eroot obtain p where p: "p \<in> set (st r)" "adjacent p e" by auto
    with sub have pg: "p \<in> groupOf w h cf p0" by auto
    then have "cf p = cf p0" "onBoard w h p" using p0(1) by (auto dest: groupOf_props)
    with p(2) eb ce have "(p, e) \<in> links w h cf" by (simp add: links_def)
    with pg show ?thesis by (rule groupOf_step)
  qed
  have eother: "rcluster (rat b e) = Some q \<Longrightarrow> q = r" for q
  proof (rule ccontr)
    assume q: "rcluster (rat b e) = Some q" and ne: "q \<noteq> r"
    from sett [OF eb q ne] ce p0(2) have "set (st q) = groupOf w h cf e"
      by (simp add: settledRef_def)
    then have "st q \<noteq> []" using groupOf_refl [of e w h cf] by auto
    with q nc show False by (simp add: hasCluster_def)
  qed
  have c1: "shaped w h ?b" using sh by (rule shaped_setCluster)
  have c2: "\<forall>p. onBoard w h p \<longrightarrow> rcolor (rat ?b p) = cf p"
    using cols by (simp add: rat')
  have c3: "\<forall>p \<in> D. onBoard w h p \<and> rcluster (rat ?b p) \<noteq> None"
    using dn by (simp add: rat')
  from c1 c2 c3 have bi': "boardInv w h cf D ?b"
    unfolding boardInv_def by blast
  have di': "doneInv w h cf r ?b ?st"
    unfolding doneInv_def
  proof (intro allI impI)
    fix p q assume pb: "onBoard w h p" and pq: "rcluster (rat ?b p) = Some q" and ne: "q \<noteq> r"
    from pq ne have pe: "p \<noteq> e" by (auto simp: rat' [OF pb])
    with pq have pq': "rcluster (rat b p) = Some q" by (simp add: rat' [OF pb])
    from sett [OF pb pq' ne] have lt: "q < r" and s: "settledRef w h cf b st p q" by simp_all
    have "settledRef w h cf ?b ?st p q"
    proof (cases "cf p = Null")
      case True
      with s ne show ?thesis by (simp add: settledRef_def)
    next
      case False
      with s have d: "distinct (st q)" and g: "set (st q) = groupOf w h cf p"
        and a: "\<And>p'. p' \<in> groupOf w h cf p \<Longrightarrow> rcluster (rat b p') = Some q"
        by (simp_all add: settledRef_def)
      have "rcluster (rat ?b p') = Some q" if p': "p' \<in> groupOf w h cf p" for p'
      proof -
        from p' pb have p'b: "onBoard w h p'" by (rule groupOf_props)
        from a [OF p'] eother ne have "p' \<noteq> e" by auto
        with a [OF p'] show ?thesis by (simp add: rat' [OF p'b])
      qed
      with False d g ne show ?thesis by (simp add: settledRef_def)
    qed
    with lt show "q < r \<and> settledRef w h cf ?b ?st p q" by simp
  qed
  have c5: "distinct (?st r)" using dist enew by simp
  have c6: "set (?st r) \<subseteq> groupOf w h cf p0" using sub eg by simp
  have c7: "\<forall>p. onBoard w h p \<longrightarrow> (rcluster (rat ?b p) = Some r) = (p \<in> set (?st r) \<or> p = p0)"
    using own by (simp add: rat')
  from p0 c5 c6 c7 have oi': "ownInv w h cf p0 r ?b ?st"
    unfolding ownInv_def by blast
  have c8: "p0 \<in> set (?st r) \<or> (?st r = [] \<and> p0 \<in> set ?stack)"
  proof (cases "p0 \<in> set (st r)")
    case True
    then show ?thesis by simp
  next
    case False
    with root have "st r = []" by auto
    with eroot have "e = p0" by auto
    then show ?thesis by simp
  qed
  have c9: "\<forall>p \<in> set (?st r). \<forall>q. (p, q) \<in> links w h cf \<longrightarrow> q \<in> set (?st r) \<or> q \<in> set ?stack"
  proof (intro ballI allI impI)
    fix p q assume p: "p \<in> set (?st r)" and l: "(p, q) \<in> links w h cf"
    show "q \<in> set (?st r) \<or> q \<in> set ?stack"
    proof (cases "p = e")
      case True
      with l have "adjacent (fst e, snd e) q" by (simp add: links_def)
      then show ?thesis unfolding adjacent_cases by auto
    next
      case False
      with p have "p \<in> set (st r)" by simp
      from front [OF this l] show ?thesis by auto
    qed
  qed
  have c10: "\<forall>q \<in> set ?stack. q = p0 \<or> (\<exists>p \<in> set (?st r). adjacent p q)"
  proof
    fix q assume "q \<in> set ?stack"
    then consider "q \<in> set rest" | "adjacent (fst e, snd e) q"
      unfolding adjacent_cases by auto
    then show "q = p0 \<or> (\<exists>p \<in> set (?st r). adjacent p q)"
    proof cases
      case 1
      with near [of q] show ?thesis by auto
    next
      case 2
      then show ?thesis by auto
    qed
  qed
  from c8 c9 c10 have si': "stackInv w h cf p0 r ?stack ?st"
    unfolding stackInv_def by blast
  from bi' di' oi' si' show ?thesis by (simp add: dfsInv_def)
qed

lemma dfsInv_head_onBoard:
  assumes inv: "dfsInv w h cf D p0 r ((ox, oy) # rest) b st"
    and chk: "\<not> (oy < 0 \<or> oy = int h \<or> ox < 0 \<or> ox = int w)"
  shows "onBoard w h (ox, oy)"
proof -
  from inv have p0: "onBoard w h p0"
    and sub: "set (st r) \<subseteq> groupOf w h cf p0"
    and near: "(ox, oy) = p0 \<or> (\<exists>p \<in> set (st r). adjacent p (ox, oy))"
    unfolding dfsInv_def ownInv_def stackInv_def by auto
  from near show ?thesis
  proof
    assume "(ox, oy) = p0"
    with p0 show ?thesis by simp
  next
    assume "\<exists>p \<in> set (st r). adjacent p (ox, oy)"
    then obtain p where p: "p \<in> set (st r)" "adjacent p (ox, oy)" by auto
    with sub p0 have "onBoard w h p" by (auto dest: groupOf_props)
    with p(2) chk show ?thesis
      by (cases p) (auto simp: onBoard_def adjacent_def)
  qed
qed

lemma dfs_invariant:
  assumes "dfsInv w h cf D p0 r stack b st" and "col = cf p0"
  shows "\<exists>b' st'. dfs w h col r stack b st = Inr (b', st') \<and> dfsInv w h cf D p0 r [] b' st'"
  using assms
proof (induction w h col r stack b st rule: dfs.induct)
  case (1 w h col r b st)
  then show ?case by (simp add: dfs.simps(1))
next
  case (2 w h col r ox oy toVisit b st)
  note inv = "2.prems"(1) and col = "2.prems"(2)
  show ?case
  proof (cases "oy < 0 \<or> oy = int h \<or> ox < 0 \<or> ox = int w")
    case True
    then have "\<not> onBoard w h (ox, oy)" by (auto simp: onBoard_def)
    then have "dfsInv w h cf D p0 r toVisit b st" by (intro dfsInv_drop [OF inv]) simp
    moreover have "dfs w h col r ((ox, oy) # toVisit) b st = dfs w h col r toVisit b st"
      using True by (subst dfs.simps(2)) simp
    ultimately show ?thesis
      using "2.IH"(1) [OF True _ col] by simp
  next
    case False
    with inv have ob: "onBoard w h (ox, oy)" by (rule dfsInv_head_onBoard)
    from inv have sh: "shaped w h b" by (simp add: dfsInv_def boardInv_def)
    from cellAt_onBoard [OF sh ob] have cell: "cellAt b ox oy = Some (rat b (ox, oy))" by simp
    from inv ob have rc: "rcolor (rat b (ox, oy)) = cf (ox, oy)"
      by (simp add: dfsInv_def boardInv_def)
    show ?thesis
    proof (cases "hasCluster st (rat b (ox, oy))")
      case True
      then have "dfsInv w h cf D p0 r toVisit b st" by (intro dfsInv_drop [OF inv]) simp
      moreover have "dfs w h col r ((ox, oy) # toVisit) b st = dfs w h col r toVisit b st"
        using False cell True by (subst dfs.simps(2)) simp
      ultimately show ?thesis
        using "2.IH"(2) [OF False cell True _ col] by simp
    next
      case nc: False
      show ?thesis
      proof (cases "col = rcolor (rat b (ox, oy))")
        case True
        with rc col have ce: "cf (ox, oy) = cf p0" by simp
        from dfsInv_push [OF inv ob nc ce]
        have "dfsInv w h cf D p0 r
                ((ox, oy + 1) # (ox, oy - 1) # (ox + 1, oy) # (ox - 1, oy) # toVisit)
                (setCluster b (nat ox) (nat oy) r) (st(r := st r @ [(ox, oy)]))"
          by simp
        moreover have "dfs w h col r ((ox, oy) # toVisit) b st =
            dfs w h col r ((ox, oy + 1) # (ox, oy - 1) # (ox + 1, oy) # (ox - 1, oy) # toVisit)
                (setCluster b (nat ox) (nat oy) r) (st(r := st r @ [(ox, oy)]))"
          using False cell nc True by (subst dfs.simps(2)) simp
        ultimately show ?thesis
          using "2.IH"(3) [OF False cell nc True _ col] by (simp only: fun_upd_def)
      next
        case ne: False
        with rc col have "cf (ox, oy) \<noteq> cf p0" by simp
        then have "dfsInv w h cf D p0 r toVisit b st" by (intro dfsInv_drop [OF inv]) simp
        moreover have "dfs w h col r ((ox, oy) # toVisit) b st = dfs w h col r toVisit b st"
          using False cell nc ne by (subst dfs.simps(2)) simp
        ultimately show ?thesis
          using "2.IH"(4) [OF False cell nc ne _ col] by simp
      qed
    qed
  qed
qed

text \<open>The invariant of the two scanning loops: every array in use is complete.\<close>

definition scanInv :: "nat \<Rightarrow> nat \<Rightarrow> (coord \<Rightarrow> color) \<Rightarrow> coord set \<Rightarrow> nat \<Rightarrow> rcell list list \<Rightarrow> store \<Rightarrow> bool" where
  "scanInv w h cf D fresh b st =
     (boardInv w h cf D b \<and>
      (\<forall>p q. onBoard w h p \<longrightarrow> rcluster (rat b p) = Some q \<longrightarrow>
             q < fresh \<and> settledRef w h cf b st p q))"

lemma scan_alloc:
  assumes inv: "scanInv w h cf D fresh b st"
    and pb: "onBoard w h p0" and none: "rcluster (rat b p0) = None"
  defines "b1 \<equiv> setCluster b (nat (fst p0)) (nat (snd p0)) fresh"
  defines "st1 \<equiv> st(fresh := [])"
  shows "boardInv w h cf (insert p0 D) b1"
    and "doneInv w h cf fresh b1 st1"
    and "\<forall>p. onBoard w h p \<longrightarrow> (rcluster (rat b1 p) = Some fresh) = (p = p0)"
proof -
  from inv have bi: "boardInv w h cf D b"
    and sett: "\<And>p q. onBoard w h p \<Longrightarrow> rcluster (rat b p) = Some q \<Longrightarrow>
                 q < fresh \<and> settledRef w h cf b st p q"
    unfolding scanInv_def by blast+
  from bi have sh: "shaped w h b"
    and cols: "\<And>p. onBoard w h p \<Longrightarrow> rcolor (rat b p) = cf p"
    and dn: "\<And>p. p \<in> D \<Longrightarrow> onBoard w h p \<and> rcluster (rat b p) \<noteq> None"
    unfolding boardInv_def by blast+
  have rat': "rat b1 p = (if p = p0 then (rat b p0)\<lparr>rcluster := Some fresh\<rparr> else rat b p)"
    if "onBoard w h p" for p
    unfolding b1_def using sh that pb by (rule rat_setCluster)
  have c1: "shaped w h b1" unfolding b1_def using sh by (rule shaped_setCluster)
  have c2: "\<forall>p. onBoard w h p \<longrightarrow> rcolor (rat b1 p) = cf p"
    using cols by (simp add: rat')
  have c3: "\<forall>p \<in> insert p0 D. onBoard w h p \<and> rcluster (rat b1 p) \<noteq> None"
    using dn pb by (auto simp: rat')
  from c1 c2 c3 show "boardInv w h cf (insert p0 D) b1"
    unfolding boardInv_def by blast
  show own: "\<forall>p. onBoard w h p \<longrightarrow> (rcluster (rat b1 p) = Some fresh) = (p = p0)"
  proof (intro allI impI)
    fix p assume p: "onBoard w h p"
    show "(rcluster (rat b1 p) = Some fresh) = (p = p0)"
    proof (cases "p = p0")
      case True
      then show ?thesis using p by (simp add: rat')
    next
      case False
      have "rcluster (rat b p) \<noteq> Some fresh" using sett [OF p] by auto
      with False show ?thesis using p by (simp add: rat')
    qed
  qed
  show "doneInv w h cf fresh b1 st1"
    unfolding doneInv_def
  proof (intro allI impI)
    fix p q assume p: "onBoard w h p" and pq: "rcluster (rat b1 p) = Some q" and ne: "q \<noteq> fresh"
    from pq ne have pe: "p \<noteq> p0" by (auto simp: rat' [OF p])
    with pq have pq': "rcluster (rat b p) = Some q" by (simp add: rat' [OF p])
    from sett [OF p pq'] have lt: "q < fresh" and s: "settledRef w h cf b st p q" by simp_all
    have "settledRef w h cf b1 st1 p q"
    proof (cases "cf p = Null")
      case True
      with s ne show ?thesis by (simp add: settledRef_def st1_def)
    next
      case False
      with s have d: "distinct (st q)" and g: "set (st q) = groupOf w h cf p"
        and a: "\<And>p'. p' \<in> groupOf w h cf p \<Longrightarrow> rcluster (rat b p') = Some q"
        by (simp_all add: settledRef_def)
      have "rcluster (rat b1 p') = Some q" if p': "p' \<in> groupOf w h cf p" for p'
      proof -
        from p' p have p'b: "onBoard w h p'" by (rule groupOf_props)
        from a [OF p'] none have "p' \<noteq> p0" by auto
        with a [OF p'] show ?thesis by (simp add: rat' [OF p'b])
      qed
      with False d g ne show ?thesis by (simp add: settledRef_def st1_def)
    qed
    with lt show "q < fresh \<and> settledRef w h cf b1 st1 p q" by simp
  qed
qed

lemma dfsInv_done:
  assumes inv: "dfsInv w h cf D p0 r [] b st"
  shows "scanInv w h cf D (Suc r) b st"
proof -
  from inv have bi: "boardInv w h cf D b" and di: "doneInv w h cf r b st"
    and oi: "ownInv w h cf p0 r b st" and si: "stackInv w h cf p0 r [] st"
    by (simp_all add: dfsInv_def)
  from di have sett: "\<And>p q. onBoard w h p \<Longrightarrow> rcluster (rat b p) = Some q \<Longrightarrow> q \<noteq> r \<Longrightarrow>
                 q < r \<and> settledRef w h cf b st p q"
    unfolding doneInv_def by blast
  from oi have p0: "onBoard w h p0" "cf p0 \<noteq> Null"
    and dist: "distinct (st r)"
    and sub: "set (st r) \<subseteq> groupOf w h cf p0"
    and own: "\<And>p. onBoard w h p \<Longrightarrow> (rcluster (rat b p) = Some r) = (p \<in> set (st r) \<or> p = p0)"
    unfolding ownInv_def by blast+
  from si have root: "p0 \<in> set (st r)"
    and front: "\<And>p q. p \<in> set (st r) \<Longrightarrow> (p, q) \<in> links w h cf \<Longrightarrow> q \<in> set (st r)"
    unfolding stackInv_def by auto
  have sup: "groupOf w h cf p0 \<subseteq> set (st r)"
    using root front by (rule groupOf_closed)
  with sub have eq: "set (st r) = groupOf w h cf p0" by auto
  have "q < Suc r \<and> settledRef w h cf b st p q"
    if p: "onBoard w h p" and pq: "rcluster (rat b p) = Some q" for p q
  proof (cases "q = r")
    case False
    with sett [OF p pq] show ?thesis by simp
  next
    case True
    with own [OF p] pq root have pin: "p \<in> set (st r)" by auto
    with eq have pg: "p \<in> groupOf w h cf p0" by simp
    then have cp: "cf p = cf p0" by (rule groupOf_props)
    from pg have geq: "groupOf w h cf p = groupOf w h cf p0" by (rule groupOf_eq)
    have "rcluster (rat b p') = Some r" if "p' \<in> groupOf w h cf p0" for p'
    proof -
      from that p0(1) have "onBoard w h p'" by (rule groupOf_props)
      from own [OF this] that eq show ?thesis by simp
    qed
    with True cp p0(2) dist eq geq show ?thesis by (simp add: settledRef_def)
  qed
  with bi show ?thesis unfolding scanInv_def by blast
qed

lemma scanCell_inv:
  assumes inv: "scanInv w h cf D fresh b st" and x: "x < w" and y: "y < h"
  shows "\<exists>b' st' fresh'. scanCell w h (y, x) (b, st, fresh) = Inr (b', st', fresh') \<and>
           scanInv w h cf (insert (int x, int y) D) fresh' b' st'"
proof -
  let ?p = "(int x, int y)"
  from x y have pb: "onBoard w h ?p" by (simp add: onBoard_def)
  from inv have bi: "boardInv w h cf D b"
    and sett: "\<And>p q. onBoard w h p \<Longrightarrow> rcluster (rat b p) = Some q \<Longrightarrow>
                 q < fresh \<and> settledRef w h cf b st p q"
    unfolding scanInv_def by blast+
  from bi have sh: "shaped w h b"
    and cols: "\<And>p. onBoard w h p \<Longrightarrow> rcolor (rat b p) = cf p"
    and dn: "\<And>p. p \<in> D \<Longrightarrow> onBoard w h p \<and> rcluster (rat b p) \<noteq> None"
    unfolding boardInv_def by blast+
  from cellAt_onBoard [OF sh pb] have cell: "cellAt b (int x) (int y) = Some (rat b ?p)" by simp
  show ?thesis
  proof (cases "rcluster (rat b ?p) = None")
    case False
    then have "scanCell w h (y, x) (b, st, fresh) = Inr (b, st, fresh)"
      by (simp add: scanCell_def cell)
    moreover have "boardInv w h cf (insert ?p D) b"
      using sh cols dn pb False unfolding boardInv_def by blast
    then have "scanInv w h cf (insert ?p D) fresh b st"
      using sett unfolding scanInv_def by blast
    ultimately show ?thesis by blast
  next
    case True
    let ?b1 = "setCluster b x y fresh" and ?st1 = "st(fresh := [])"
    from scan_alloc [OF inv pb True]
    have bi1: "boardInv w h cf (insert ?p D) ?b1"
      and di1: "doneInv w h cf fresh ?b1 ?st1"
      and own0: "\<forall>p. onBoard w h p \<longrightarrow> (rcluster (rat ?b1 p) = Some fresh) = (p = ?p)"
      by simp_all
    from own0 have own1: "\<And>p. onBoard w h p \<Longrightarrow> (rcluster (rat ?b1 p) = Some fresh) = (p = ?p)"
      by blast
    show ?thesis
    proof (cases "rcolor (rat b ?p) = Null")
      case null: True
      with cols [OF pb] have cn: "cf ?p = Null" by simp
      have eq: "scanCell w h (y, x) (b, st, fresh) = Inr (?b1, ?st1, Suc fresh)"
        using True null by (simp add: scanCell_def cell Let_def)
      have "q < Suc fresh \<and> settledRef w h cf ?b1 ?st1 p q"
        if p: "onBoard w h p" and pq: "rcluster (rat ?b1 p) = Some q" for p q
      proof (cases "q = fresh")
        case True
        with own1 [OF p] pq have "p = ?p" by simp
        with True cn show ?thesis by (simp add: settledRef_def)
      next
        case False
        from di1 have "\<And>p q. onBoard w h p \<Longrightarrow> rcluster (rat ?b1 p) = Some q \<Longrightarrow> q \<noteq> fresh
                 \<Longrightarrow> q < fresh \<and> settledRef w h cf ?b1 ?st1 p q"
          unfolding doneInv_def by blast
        from this [OF p pq False] show ?thesis by simp
      qed
      with bi1 have "scanInv w h cf (insert ?p D) (Suc fresh) ?b1 ?st1"
        unfolding scanInv_def by blast
      with eq show ?thesis by blast
    next
      case col: False
      with cols [OF pb] have cn: "cf ?p \<noteq> Null" by simp
      have oi: "ownInv w h cf ?p fresh ?b1 ?st1"
        unfolding ownInv_def using pb cn own1 by simp
      have si: "stackInv w h cf ?p fresh [?p] ?st1"
        unfolding stackInv_def by simp
      from bi1 di1 oi si have "dfsInv w h cf (insert ?p D) ?p fresh [?p] ?b1 ?st1"
        by (simp add: dfsInv_def)
      from dfs_invariant [OF this refl] obtain b2 st2
        where d: "dfs w h (cf ?p) fresh [?p] ?b1 ?st1 = Inr (b2, st2)"
          and i2: "dfsInv w h cf (insert ?p D) ?p fresh [] b2 st2"
        by blast
      from i2 have "scanInv w h cf (insert ?p D) (Suc fresh) b2 st2" by (rule dfsInv_done)
      moreover have "scanCell w h (y, x) (b, st, fresh) = Inr (b2, st2, Suc fresh)"
        using True col d cols [OF pb] by (simp add: scanCell_def cell Let_def)
      ultimately show ?thesis by blast
    qed
  qed
qed

lemma foldE_scan:
  assumes "scanInv w h cf D fresh b st" and "\<forall>(y, x) \<in> set ps. x < w \<and> y < h"
  shows "\<exists>b' st' fresh'. foldE (scanCell w h) ps (b, st, fresh) = Inr (b', st', fresh') \<and>
           scanInv w h cf (D \<union> (\<lambda>(y, x). (int x, int y)) ` set ps) fresh' b' st'"
  using assms
proof (induction ps arbitrary: D fresh b st)
  case Nil
  then show ?case by simp
next
  case (Cons a ps)
  obtain y x where a: "a = (y, x)" by (cases a)
  with Cons.prems have xy: "x < w" "y < h" by auto
  from scanCell_inv [OF Cons.prems(1) xy] obtain b1 st1 f1
    where s: "scanCell w h (y, x) (b, st, fresh) = Inr (b1, st1, f1)"
      and i: "scanInv w h cf (insert (int x, int y) D) f1 b1 st1"
    by blast
  from Cons.prems(2) have "\<forall>(y, x) \<in> set ps. x < w \<and> y < h" by simp
  from Cons.IH [OF i this] obtain b2 st2 f2
    where f: "foldE (scanCell w h) ps (b1, st1, f1) = Inr (b2, st2, f2)"
      and i2: "scanInv w h cf (insert (int x, int y) D \<union> (\<lambda>(y, x). (int x, int y)) ` set ps) f2 b2 st2"
    by blast
  have "insert (int x, int y) D \<union> (\<lambda>(y, x). (int x, int y)) ` set ps
          = D \<union> (\<lambda>(y, x). (int x, int y)) ` set (a # ps)"
    using a by auto
  with i2 have "scanInv w h cf (D \<union> (\<lambda>(y, x). (int x, int y)) ` set (a # ps)) f2 b2 st2"
    by simp
  moreover have "foldE (scanCell w h) (a # ps) (b, st, fresh) = Inr (b2, st2, f2)"
    using s f a by simp
  ultimately show ?case by blast
qed

text \<open>The same notions for a session.\<close>

definition inGrid :: "game \<Rightarrow> coord \<Rightarrow> bool" where
  "inGrid g p = onBoard (width g) (height g) p"

definition colourAt :: "game \<Rightarrow> coord \<Rightarrow> color" where
  "colourAt g p = color (rat (board g) p)"

definition clusterAt :: "game \<Rightarrow> coord \<Rightarrow> coord list" where
  "clusterAt g p = cluster (rat (board g) p)"

definition groupAt :: "game \<Rightarrow> coord \<Rightarrow> coord set" where
  "groupAt g p = groupOf (width g) (height g) (colourAt g) p"

lemma rat_map:
  assumes "shaped w h b" and "onBoard w h p"
  shows "rat (map (map f) b) p = f (rat b p)"
  using assms by (auto simp: rat_def shaped_def onBoard_def)

lemma wellShaped_shaped: "wellShaped g = shaped (width g) (height g) (board g)"
  by (auto simp: wellShaped_def shaped_def list_all_length)

lemma shaped_map: "shaped w h b \<Longrightarrow> shaped w h (map (map f) b)"
  by (simp add: shaped_def)

lemma product_image:
  "(\<lambda>(y, x). (int x, int y)) ` set (List.product [0..<h] [0..<w]) = {p. onBoard w h p}"
proof (intro set_eqI iffI)
  fix p assume "p \<in> (\<lambda>(y, x). (int x, int y)) ` set (List.product [0..<h] [0..<w])"
  then show "p \<in> {p. onBoard w h p}" by (auto simp: onBoard_def)
next
  fix p assume "p \<in> {p. onBoard w h p}"
  then have "(nat (snd p), nat (fst p)) \<in> set (List.product [0..<h] [0..<w])"
    and "p = (int (nat (fst p)), int (nat (snd p)))"
    by (auto simp: onBoard_def)
  then show "p \<in> (\<lambda>(y, x). (int x, int y)) ` set (List.product [0..<h] [0..<w])"
    by (metis (mono_tags, lifting) image_eqI old.prod.case)
qed

lemma updateClusters_scan:
  assumes ws: "wellShaped g"
  shows "\<exists>b st fresh.
           updateClusters g
             = Inr (g\<lparr>board := map (map (\<lambda>c. \<lparr>color = rcolor c, cluster = st (the (rcluster c))\<rparr>)) b\<rparr>) \<and>
           scanInv (width g) (height g) (colourAt g) {p. onBoard (width g) (height g) p} fresh b st"
proof -
  let ?w = "width g" and ?h = "height g" and ?cf = "colourAt g"
  let ?b0 = "map (map (\<lambda>c. \<lparr>rcolor = color c, rcluster = None\<rparr>)) (board g)"
  let ?ps = "List.product [0..<?h] [0..<?w]"
  from ws have sh: "shaped ?w ?h (board g)" by (simp add: wellShaped_shaped)
  then have sh0: "shaped ?w ?h ?b0" by (rule shaped_map)
  have r0: "rat ?b0 p = \<lparr>rcolor = ?cf p, rcluster = None\<rparr>" if "onBoard ?w ?h p" for p
    using rat_map [OF sh that] by (simp add: colourAt_def)
  have "boardInv ?w ?h ?cf {} ?b0"
    unfolding boardInv_def using sh0 r0 by simp
  then have i0: "scanInv ?w ?h ?cf {} 0 ?b0 (\<lambda>_. [])"
    unfolding scanInv_def using r0 by simp
  have "\<forall>(y, x) \<in> set ?ps. x < ?w \<and> y < ?h" by auto
  from foldE_scan [OF i0 this] obtain b st fresh
    where f: "foldE (scanCell ?w ?h) ?ps (?b0, (\<lambda>_. []), 0) = Inr (b, st, fresh)"
      and i: "scanInv ?w ?h ?cf ({} \<union> (\<lambda>(y, x). (int x, int y)) ` set ?ps) fresh b st"
    by blast
  from i have i': "scanInv ?w ?h ?cf {p. onBoard ?w ?h p} fresh b st"
    by (simp only: product_image Un_empty_left)
  then have shb: "shaped ?w ?h b"
    and dn: "\<And>p. onBoard ?w ?h p \<Longrightarrow> rcluster (rat b p) \<noteq> None"
    unfolding scanInv_def boardInv_def by blast+
  have "rcluster (b ! x ! y) \<noteq> None" if "x < length b" "y < length (b ! x)" for x y
  proof -
    from that shb have "onBoard ?w ?h (int x, int y)" by (simp add: shaped_def onBoard_def)
    from dn [OF this] show ?thesis by (simp add: rat_def)
  qed
  then have "list_all (list_all (\<lambda>c. rcluster c \<noteq> None)) b"
    by (simp add: list_all_length)
  with f have "updateClusters g
      = Inr (g\<lparr>board := map (map (\<lambda>c. \<lparr>color = rcolor c, cluster = st (the (rcluster c))\<rparr>)) b\<rparr>)"
    by (simp add: updateClusters_def Let_def)
  with i' show ?thesis by blast
qed

text \<open>Every cell of the board holds the list of its group: the empty list when the cell
  is empty, and otherwise the cells of its group, each once, the same list in every cell
  of the group.\<close>

definition clustered :: "game \<Rightarrow> bool" where
  "clustered g =
     (\<forall>p. inGrid g p \<longrightarrow>
        (if colourAt g p = Null then clusterAt g p = []
         else distinct (clusterAt g p) \<and> set (clusterAt g p) = groupAt g p \<and>
              (\<forall>q \<in> groupAt g p. clusterAt g q = clusterAt g p)))"

lemma links_cong:
  assumes "\<And>p. onBoard w h p \<Longrightarrow> cf p = cf' p"
  shows "links w h cf = links w h cf'"
  using assms by (auto simp: links_def)

lemma groupOf_cong:
  assumes "\<And>p. onBoard w h p \<Longrightarrow> cf p = cf' p"
  shows "groupOf w h cf = groupOf w h cf'"
  using links_cong [OF assms] by (simp add: groupOf_def fun_eq_iff)

lemma updateClusters_flood:
  assumes ws: "wellShaped g"
  shows "\<exists>g'. updateClusters g = Inr g' \<and> g' = g\<lparr>board := board g'\<rparr> \<and> wellShaped g' \<and>
              (\<forall>p. inGrid g p \<longrightarrow> colourAt g' p = colourAt g p) \<and> clustered g'"
proof -
  let ?w = "width g" and ?h = "height g" and ?cf = "colourAt g"
  from updateClusters_scan [OF ws] obtain b st fresh
    where u: "updateClusters g
             = Inr (g\<lparr>board := map (map (\<lambda>c. \<lparr>color = rcolor c, cluster = st (the (rcluster c))\<rparr>)) b\<rparr>)"
      and i: "scanInv ?w ?h ?cf {p. onBoard ?w ?h p} fresh b st"
    by blast
  let ?g' = "g\<lparr>board := map (map (\<lambda>c. \<lparr>color = rcolor c, cluster = st (the (rcluster c))\<rparr>)) b\<rparr>"
  from i have sh: "shaped ?w ?h b"
    and colr: "\<And>p. onBoard ?w ?h p \<Longrightarrow> rcolor (rat b p) = ?cf p"
    and dn: "\<And>p. onBoard ?w ?h p \<Longrightarrow> rcluster (rat b p) \<noteq> None"
    and sett: "\<And>p q. onBoard ?w ?h p \<Longrightarrow> rcluster (rat b p) = Some q \<Longrightarrow> settledRef ?w ?h ?cf b st p q"
    unfolding scanInv_def boardInv_def by blast+
  have rd: "rat (board ?g') p = \<lparr>color = rcolor (rat b p), cluster = st (the (rcluster (rat b p)))\<rparr>"
    if "onBoard ?w ?h p" for p
    using rat_map [OF sh that] by simp
  have col': "colourAt ?g' p = ?cf p" if "onBoard ?w ?h p" for p
    using rd [OF that] colr [OF that] by (simp add: colourAt_def)
  have cl': "clusterAt ?g' p = st q" if "onBoard ?w ?h p" "rcluster (rat b p) = Some q" for p q
    using rd [OF that(1)] that(2) by (simp add: clusterAt_def)
  have grp: "groupAt ?g' = groupOf ?w ?h ?cf"
    unfolding groupAt_def using groupOf_cong [of ?w ?h "colourAt ?g'" ?cf] col' by simp
  have ws': "wellShaped ?g'"
    using shaped_map [OF sh] by (simp add: wellShaped_shaped)
  have "clustered ?g'"
    unfolding clustered_def
  proof (intro allI impI)
    fix p assume "inGrid ?g' p"
    then have pb: "onBoard ?w ?h p" by (simp add: inGrid_def)
    from dn [OF pb] obtain q where q: "rcluster (rat b p) = Some q" by auto
    note s = sett [OF pb q]
    show "if colourAt ?g' p = Null then clusterAt ?g' p = []
          else distinct (clusterAt ?g' p) \<and> set (clusterAt ?g' p) = groupAt ?g' p \<and>
               (\<forall>q \<in> groupAt ?g' p. clusterAt ?g' q = clusterAt ?g' p)"
    proof (cases "?cf p = Null")
      case True
      with s have "st q = []" by (simp add: settledRef_def)
      with True show ?thesis by (simp add: col' [OF pb] cl' [OF pb q])
    next
      case False
      with s have d: "distinct (st q)" and e: "set (st q) = groupOf ?w ?h ?cf p"
        and r: "\<And>p'. p' \<in> groupOf ?w ?h ?cf p \<Longrightarrow> rcluster (rat b p') = Some q"
        by (simp_all add: settledRef_def)
      have "clusterAt ?g' p' = st q" if "p' \<in> groupOf ?w ?h ?cf p" for p'
        using cl' [OF groupOf_props(2) [OF that pb] r [OF that]] .
      with False d e show ?thesis
        by (simp add: col' [OF pb] cl' [OF pb q] grp)
    qed
  qed
  moreover have "\<forall>p. inGrid g p \<longrightarrow> colourAt ?g' p = colourAt g p"
    using col' by (simp add: inGrid_def)
  moreover have "?g' = g\<lparr>board := board ?g'\<rparr>" by simp
  ultimately show ?thesis using u ws' by blast
qed



text \<open>The column red, red, blue after a click with the pointer over the red cells.\<close>

definition blueAlone :: game where
  "blueAlone = \<lparr>ncolors = 2, width = 1, height = 3, color_vocab = [''red'', ''blue''],
     hoverCluster = [], score = 4, numCells = 1,
     board = [[emptyCell, emptyCell, \<lparr>color = Named ''blue'', cluster = [(0, 2)]\<rparr>]],
     scoreLeft = 4900, scoreTotal = 4904, hoverScore = 0\<rparr>"

lemma blueAlone_reached: "final (handleClick 0 2 redRedBlueHovered) = blueAlone"
  by code_simp

lemma clusteredD:
  assumes "clustered g" and "inGrid g p"
  shows "colourAt g p = Null \<Longrightarrow> clusterAt g p = []"
    and "colourAt g p \<noteq> Null \<Longrightarrow> distinct (clusterAt g p)"
    and "colourAt g p \<noteq> Null \<Longrightarrow> set (clusterAt g p) = groupAt g p"
    and "colourAt g p \<noteq> Null \<Longrightarrow> q \<in> groupAt g p \<Longrightarrow> clusterAt g q = clusterAt g p"
proof -
  from assms have "if colourAt g p = Null then clusterAt g p = []
         else distinct (clusterAt g p) \<and> set (clusterAt g p) = groupAt g p \<and>
              (\<forall>q \<in> groupAt g p. clusterAt g q = clusterAt g p)"
    unfolding clustered_def by blast
  then show "colourAt g p = Null \<Longrightarrow> clusterAt g p = []"
    and "colourAt g p \<noteq> Null \<Longrightarrow> distinct (clusterAt g p)"
    and "colourAt g p \<noteq> Null \<Longrightarrow> set (clusterAt g p) = groupAt g p"
    and "colourAt g p \<noteq> Null \<Longrightarrow> q \<in> groupAt g p \<Longrightarrow> clusterAt g q = clusterAt g p"
    by (simp_all split: if_splits)
qed

text \<open>
  C5. On every board of \<open>width\<close> columns of \<open>height\<close> cells \<open>updateClusters\<close> returns
  without an error and changes nothing but the \<^verbatim>\<open>cluster\<close> fields. An empty cell is left
  with the empty array. A coloured cell is left with an array that lists the cell itself
  and is exactly its group, the cells reached from it through adjacent cells of the same
  colour, each listed once: so every cell it lists is a cell of the board of the same
  colour, not an empty cell, that holds the same array (membership is symmetric and
  transitive), and every neighbour of the same colour of a listed cell is listed (the
  group is maximal). Two arrays that share a cell are the same array, so every coloured
  cell is in exactly one cluster.
\<close>

theorem updateClusters_partition:
  assumes "wellShaped g"
  shows "\<exists>g'. updateClusters g = Inr g' \<and> g' = g\<lparr>board := board g'\<rparr> \<and> wellShaped g' \<and>
     (\<forall>p. inGrid g p \<longrightarrow>
        colourAt g' p = colourAt g p \<and>
        (colourAt g p = Null \<longrightarrow> clusterAt g' p = []) \<and>
        (colourAt g p \<noteq> Null \<longrightarrow>
           p \<in> set (clusterAt g' p) \<and> distinct (clusterAt g' p) \<and>
           set (clusterAt g' p) = groupAt g p \<and>
           (\<forall>q \<in> set (clusterAt g' p).
              inGrid g q \<and> colourAt g q = colourAt g p \<and> clusterAt g' q = clusterAt g' p \<and>
              (\<forall>s. inGrid g s \<and> adjacent q s \<and> colourAt g s = colourAt g q
                    \<longrightarrow> s \<in> set (clusterAt g' p))))) \<and>
     (\<forall>p q. inGrid g p \<and> inGrid g q \<and> set (clusterAt g' p) \<inter> set (clusterAt g' q) \<noteq> {}
            \<longrightarrow> clusterAt g' p = clusterAt g' q)"
proof -
  from updateClusters_flood [OF assms] obtain g'
    where u: "updateClusters g = Inr g'" and e: "g' = g\<lparr>board := board g'\<rparr>"
      and ws': "wellShaped g'" and co: "\<And>p. inGrid g p \<Longrightarrow> colourAt g' p = colourAt g p"
      and cl: "clustered g'"
    by blast
  have wh: "width g' = width g" "height g' = height g"
    using arg_cong [OF e, of width] arg_cong [OF e, of height] by simp_all
  from wh have ig: "inGrid g' = inGrid g" by (simp add: inGrid_def fun_eq_iff)
  have gr: "groupAt g' = groupAt g"
    unfolding groupAt_def wh
    using groupOf_cong [of "width g" "height g" "colourAt g'" "colourAt g"] co
    by (simp add: inGrid_def)
  have empty: "clusterAt g' p = []" if "inGrid g p" "colourAt g p = Null" for p
    using clusteredD(1) [OF cl, of p] that co [OF that(1)] by (simp add: ig)
  have full: "distinct (clusterAt g' p)" "set (clusterAt g' p) = groupAt g p"
    "\<And>q. q \<in> groupAt g p \<Longrightarrow> clusterAt g' q = clusterAt g' p"
    if "inGrid g p" "colourAt g p \<noteq> Null" for p
    using clusteredD(2,3,4) [OF cl, of p] that co [OF that(1)] by (simp_all add: ig gr)
  have mem: "inGrid g q \<and> colourAt g q = colourAt g p" if "inGrid g p" "q \<in> groupAt g p" for p q
    using that groupOf_props [of q "width g" "height g" "colourAt g" p]
    by (simp add: groupAt_def inGrid_def)
  have one: "p \<in> set (clusterAt g' p) \<and> distinct (clusterAt g' p) \<and>
           set (clusterAt g' p) = groupAt g p \<and>
           (\<forall>q \<in> set (clusterAt g' p).
              inGrid g q \<and> colourAt g q = colourAt g p \<and> clusterAt g' q = clusterAt g' p \<and>
              (\<forall>s. inGrid g s \<and> adjacent q s \<and> colourAt g s = colourAt g q
                    \<longrightarrow> s \<in> set (clusterAt g' p)))"
    if p: "inGrid g p" and c: "colourAt g p \<noteq> Null" for p
  proof -
    note f = full [OF p c]
    have "p \<in> set (clusterAt g' p)"
      unfolding f(2) groupAt_def by (rule groupOf_refl)
    moreover have "s \<in> set (clusterAt g' p)"
      if q: "q \<in> set (clusterAt g' p)" and s: "inGrid g s" "adjacent q s" "colourAt g s = colourAt g q"
      for q s
    proof -
      from q have qg: "q \<in> groupAt g p" by (simp add: f(2))
      with mem [OF p] have "inGrid g q" by simp
      with s have "(q, s) \<in> links (width g) (height g) (colourAt g)"
        by (simp add: links_def inGrid_def)
      with qg have "s \<in> groupAt g p"
        unfolding groupAt_def by (rule groupOf_step)
      then show ?thesis by (simp add: f(2))
    qed
    ultimately show ?thesis
      using f mem [OF p] by blast
  qed
  have disj: "clusterAt g' p = clusterAt g' q"
    if p: "inGrid g p" and q: "inGrid g q"
      and m: "set (clusterAt g' p) \<inter> set (clusterAt g' q) \<noteq> {}" for p q
  proof -
    from m obtain s where s: "s \<in> set (clusterAt g' p)" "s \<in> set (clusterAt g' q)" by auto
    from s(1) empty [OF p] have cp: "colourAt g p \<noteq> Null" by auto
    from s(2) empty [OF q] have cq: "colourAt g q \<noteq> Null" by auto
    from s full(2) [OF p cp] full(2) [OF q cq] have "s \<in> groupAt g p" "s \<in> groupAt g q"
      by simp_all
    with full(3) [OF p cp] full(3) [OF q cq] show ?thesis by metis
  qed
  have A: "\<forall>p. inGrid g p \<longrightarrow>
        colourAt g' p = colourAt g p \<and>
        (colourAt g p = Null \<longrightarrow> clusterAt g' p = []) \<and>
        (colourAt g p \<noteq> Null \<longrightarrow>
           p \<in> set (clusterAt g' p) \<and> distinct (clusterAt g' p) \<and>
           set (clusterAt g' p) = groupAt g p \<and>
           (\<forall>q \<in> set (clusterAt g' p).
              inGrid g q \<and> colourAt g q = colourAt g p \<and> clusterAt g' q = clusterAt g' p \<and>
              (\<forall>s. inGrid g s \<and> adjacent q s \<and> colourAt g s = colourAt g q
                    \<longrightarrow> s \<in> set (clusterAt g' p))))"
  proof (intro allI impI)
    fix p assume p: "inGrid g p"
    show "colourAt g' p = colourAt g p \<and>
        (colourAt g p = Null \<longrightarrow> clusterAt g' p = []) \<and>
        (colourAt g p \<noteq> Null \<longrightarrow>
           p \<in> set (clusterAt g' p) \<and> distinct (clusterAt g' p) \<and>
           set (clusterAt g' p) = groupAt g p \<and>
           (\<forall>q \<in> set (clusterAt g' p).
              inGrid g q \<and> colourAt g q = colourAt g p \<and> clusterAt g' q = clusterAt g' p \<and>
              (\<forall>s. inGrid g s \<and> adjacent q s \<and> colourAt g s = colourAt g q
                    \<longrightarrow> s \<in> set (clusterAt g' p))))"
      by (rule conjI [OF co [OF p] conjI [OF impI [OF empty [OF p]] impI [OF one [OF p]]]])
  qed
  have B: "\<forall>p q. inGrid g p \<and> inGrid g q \<and> set (clusterAt g' p) \<inter> set (clusterAt g' q) \<noteq> {}
            \<longrightarrow> clusterAt g' p = clusterAt g' q"
    using disj by blast
  show ?thesis
    by (intro exI [of _ g'] conjI) (rule u e ws' A B)+
qed

theorem updateClusters_partition_witness:
  "wellShaped greenRedBlue \<and> updateClusters greenRedBlue = Inr greenRedBlue \<and>
   inGrid greenRedBlue (1, 1) \<and> colourAt greenRedBlue (1, 1) \<noteq> Null \<and>
   groupAt greenRedBlue (1, 1) = {(1, 0), (1, 1), (2, 1), (0, 1)} \<and>
   inGrid greenRedBlue (0, 0) \<and> colourAt greenRedBlue (0, 0) \<noteq> Null \<and>
   groupAt greenRedBlue (0, 0) = {(0, 0)} \<and>
   wellShaped blueAlone \<and> inGrid blueAlone (0, 0) \<and> colourAt blueAlone (0, 0) = Null \<and>
   (\<exists>g'. updateClusters blueAlone = Inr g' \<and> clusterAt g' (0, 0) = [])"
proof -
  have w: "wellShaped greenRedBlue" "wellShaped blueAlone"
    by (simp_all add: wellShaped_def greenRedBlue_def blueAlone_def)
  have u: "updateClusters greenRedBlue = Inr greenRedBlue" by code_simp
  have i: "inGrid greenRedBlue (1, 1)" "inGrid greenRedBlue (0, 0)" "inGrid blueAlone (0, 0)"
    by (simp_all add: inGrid_def onBoard_def greenRedBlue_def blueAlone_def)
  have c: "colourAt greenRedBlue (1, 1) \<noteq> Null" "colourAt greenRedBlue (0, 0) \<noteq> Null"
    "colourAt blueAlone (0, 0) = Null"
    by (simp_all add: colourAt_def rat_def greenRedBlue_def blueAlone_def emptyCell_def)
  have l: "clusterAt greenRedBlue (1, 1) = [(1, 0), (1, 1), (2, 1), (0, 1)]"
    "clusterAt greenRedBlue (0, 0) = [(0, 0)]"
    by (simp_all add: clusterAt_def rat_def greenRedBlue_def)
  from updateClusters_partition [OF w(1)] obtain g'
    where ug: "updateClusters greenRedBlue = Inr g'"
      and pg: "\<forall>p. inGrid greenRedBlue p \<longrightarrow>
        colourAt g' p = colourAt greenRedBlue p \<and>
        (colourAt greenRedBlue p = Null \<longrightarrow> clusterAt g' p = []) \<and>
        (colourAt greenRedBlue p \<noteq> Null \<longrightarrow>
           p \<in> set (clusterAt g' p) \<and> distinct (clusterAt g' p) \<and>
           set (clusterAt g' p) = groupAt greenRedBlue p \<and>
           (\<forall>q \<in> set (clusterAt g' p).
              inGrid greenRedBlue q \<and> colourAt greenRedBlue q = colourAt greenRedBlue p \<and>
              clusterAt g' q = clusterAt g' p \<and>
              (\<forall>s. inGrid greenRedBlue s \<and> adjacent q s \<and>
                    colourAt greenRedBlue s = colourAt greenRedBlue q
                    \<longrightarrow> s \<in> set (clusterAt g' p))))"
    by (elim exE conjE)
  from u ug have eq: "g' = greenRedBlue" by simp
  have a: "set (clusterAt greenRedBlue p) = groupAt greenRedBlue p"
    if "inGrid greenRedBlue p" "colourAt greenRedBlue p \<noteq> Null" for p
    using pg [unfolded eq, rule_format, OF that(1)] that(2) by blast
  from a [OF i(1) c(1)] a [OF i(2) c(2)]
  have g: "groupAt greenRedBlue (1, 1) = {(1, 0), (1, 1), (2, 1), (0, 1)}"
    "groupAt greenRedBlue (0, 0) = {(0, 0)}"
    by (simp_all add: l)
  from updateClusters_partition [OF w(2)] obtain g2
    where ub: "updateClusters blueAlone = Inr g2"
      and pb: "\<forall>p. inGrid blueAlone p \<longrightarrow>
        colourAt g2 p = colourAt blueAlone p \<and>
        (colourAt blueAlone p = Null \<longrightarrow> clusterAt g2 p = []) \<and>
        (colourAt blueAlone p \<noteq> Null \<longrightarrow>
           p \<in> set (clusterAt g2 p) \<and> distinct (clusterAt g2 p) \<and>
           set (clusterAt g2 p) = groupAt blueAlone p \<and>
           (\<forall>q \<in> set (clusterAt g2 p).
              inGrid blueAlone q \<and> colourAt blueAlone q = colourAt blueAlone p \<and>
              clusterAt g2 q = clusterAt g2 p \<and>
              (\<forall>s. inGrid blueAlone s \<and> adjacent q s \<and>
                    colourAt blueAlone s = colourAt blueAlone q
                    \<longrightarrow> s \<in> set (clusterAt g2 p))))"
    by (elim exE conjE)
  from pb [rule_format, OF i(3)] c(3) have "clusterAt g2 (0, 0) = []"
    by blast
  with ub have "\<exists>g'. updateClusters blueAlone = Inr g' \<and> clusterAt g' (0, 0) = []"
    by blast
  with w u i c g show ?thesis by blast
qed


section \<open>The session after updateGame\<close>

text \<open>The loop over the columns keeps the board at \<open>width\<close> columns of \<open>height\<close>
  cells, so \<open>updateGame\<close> returns after a click.\<close>

lemma clickColumn_wellShaped:
  assumes ws: "wellShaped g" and x: "x < width g"
  shows "wellShaped (clickColumn x g)"
proof -
  let ?g2 = "refill x (removeCells x g)"
  from ws x have xl: "x < length (board g)" and w: "length (board g) = width g"
    and cols: "\<And>i. i < width g \<Longrightarrow> length (board g ! i) = height g"
    by (auto simp: wellShaped_def list_all_length)
  have wh: "width ?g2 = width g" "height ?g2 = height g"
    using xl by (simp_all add: refill_removeCells)
  have b2: "board ?g2 = (board g)[x := fallen g x]"
    using xl by (simp add: refill_removeCells fallen_eq)
  have fl: "length (fallen g x) = height g"
    using xl cols x by (simp add: fallen_length)
  have len2: "length (board ?g2) = width g" using b2 w by simp
  have cols2: "\<forall>i < width g. length (board ?g2 ! i) = height g"
  proof (intro allI impI)
    fix i assume "i < width g"
    then show "length (board ?g2 ! i) = height g"
      unfolding b2 using w cols fl by (cases "i = x") simp_all
  qed
  have ws2: "wellShaped ?g2"
    using len2 cols2 by (simp add: wellShaped_def list_all_length wh)
  have mv: "moveLeft (width ?g2) (height ?g2) x (board ?g2)
          = take x (board ?g2) @ drop (Suc x) (board ?g2) @ [replicate (height g) emptyCell]"
    unfolding wh using len2 cols2 x by (rule moveLeft_eq)
  have "list_all (\<lambda>col. length col = height g)
          (take x (board ?g2) @ drop (Suc x) (board ?g2) @ [replicate (height g) emptyCell])"
    using ws2 by (auto simp: wellShaped_def wh list_all_iff dest: in_set_takeD in_set_dropD)
  moreover have "length (take x (board ?g2) @ drop (Suc x) (board ?g2)
                   @ [replicate (height g) emptyCell]) = width g"
    using len2 x by simp
  ultimately have "wellShaped (?g2\<lparr>board := moveLeft (width ?g2) (height ?g2) x (board ?g2)\<rparr>)"
    unfolding mv by (simp add: wellShaped_def wh)
  with ws2 show ?thesis
    by (simp add: clickColumn_def Let_def)
qed

lemma fold_clickColumn_wellShaped:
  assumes "wellShaped g" and "\<forall>x \<in> set xs. x < width g"
  shows "wellShaped (fold clickColumn xs g)"
  using assms
proof (induction xs arbitrary: g)
  case Nil
  then show ?case by simp
next
  case (Cons x xs)
  from Cons.prems have "wellShaped (clickColumn x g)"
    by (simp add: clickColumn_wellShaped)
  moreover from Cons.prems have "\<forall>x' \<in> set xs. x' < width (clickColumn x g)" by simp
  ultimately show ?case using Cons.IH by simp
qed

lemma clickColumns_wellShaped: "wellShaped g \<Longrightarrow> wellShaped (clickColumns g)"
  by (simp add: clickColumns_def fold_clickColumn_wellShaped)

lemma updateGame_returns:
  assumes ws: "wellShaped g"
  shows "\<exists>g'. updateGame g = Inr g' \<and> wellShaped g' \<and> clustered g' \<and>
              width g' = width g \<and> height g' = height g \<and> hoverCluster g' = [] \<and>
              numCells g' = numCells g \<and>
              score g' = score g + int (length (hoverCluster g)) * int (length (hoverCluster g)) \<and>
              (\<forall>p. inGrid g p \<longrightarrow> colourAt g' p = colourAt g p)"
proof -
  let ?g1 = "handleOut g"
  let ?g2 = "updateScore (int (length (hoverCluster ?g1))) ?g1"
  let ?g3 = "?g2\<lparr>hoverCluster := []\<rparr>"
  have f: "board ?g3 = board g" "width ?g3 = width g" "height ?g3 = height g"
    "numCells ?g3 = numCells g" "hoverCluster ?g3 = []"
    "score ?g3 = score g + int (length (hoverCluster g)) * int (length (hoverCluster g))"
    by (simp_all add: updateScore_def Let_def)
  from ws f have ws3: "wellShaped ?g3" by (simp add: wellShaped_def)
  from updateClusters_flood [OF ws3] obtain g'
    where u: "updateClusters ?g3 = Inr g'" and e: "g' = ?g3\<lparr>board := board g'\<rparr>"
      and ws': "wellShaped g'" and c: "\<forall>p. inGrid ?g3 p \<longrightarrow> colourAt g' p = colourAt ?g3 p"
      and cl: "clustered g'"
    by blast
  from u have r: "updateGame g = Inr g'" by (simp add: updateGame_def Let_def)
  have wh: "width g' = width g" "height g' = height g" "hoverCluster g' = []"
    "numCells g' = numCells g"
    "score g' = score g + int (length (hoverCluster g)) * int (length (hoverCluster g))"
    using arg_cong [OF e, of width] arg_cong [OF e, of height] arg_cong [OF e, of hoverCluster]
      arg_cong [OF e, of numCells] arg_cong [OF e, of score]
    by (simp_all add: updateScore_def Let_def)
  have "\<forall>p. inGrid g p \<longrightarrow> colourAt g' p = colourAt g p"
    using c f by (simp add: inGrid_def colourAt_def)
  with r ws' cl wh show ?thesis by blast
qed


lemma colours_eq:
  assumes "wellShaped g" and "wellShaped g'"
    and "width g' = width g" and "height g' = height g"
    and c: "\<forall>p. inGrid g p \<longrightarrow> colourAt g' p = colourAt g p"
  shows "map (map color) (board g') = map (map color) (board g)"
proof -
  from assms have l: "length (board g) = width g" "length (board g') = width g"
    and cols: "\<And>i. i < width g \<Longrightarrow> length (board g ! i) = height g"
      "\<And>i. i < width g \<Longrightarrow> length (board g' ! i) = height g"
    by (auto simp: wellShaped_def list_all_length)
  have e: "color (board g' ! i ! j) = color (board g ! i ! j)" if "i < width g" "j < height g" for i j
  proof -
    from that have "inGrid g (int i, int j)" by (simp add: inGrid_def onBoard_def)
    with c have "colourAt g' (int i, int j) = colourAt g (int i, int j)" by blast
    then show ?thesis by (simp add: colourAt_def rat_def)
  qed
  show ?thesis
  proof (rule nth_equalityI)
    show "length (map (map color) (board g')) = length (map (map color) (board g))"
      using l by simp
  next
    fix i assume "i < length (map (map color) (board g'))"
    with l have i: "i < width g" by simp
    have "map color (board g' ! i) = map color (board g ! i)"
      using cols [OF i] e [OF i] by (intro nth_equalityI) simp_all
    with i l show "map (map color) (board g') ! i = map (map color) (board g) ! i" by simp
  qed
qed

text \<open>
  C9. The claim: at a coordinate off the board, access to the board, and so previewAt and
  selectAt, signals an OutOfBounds error, and the caller recovers from it as from a
  no-op. The code has no bounds check and no such error. On the board of two red cells,
  at column 2: \<open>handleHover\<close> throws a TypeError; \<open>handleClick\<close> signals nothing when no
  cell is hovered; and with the two red cells hovered \<open>handleClick\<close> removes them, adds
  4 to the score, and only then throws, from the \<open>handleHover\<close> it ends with.
\<close>

theorem outside_click_counterexample:
  "handleHover 2 0 twoReds = Inl (TypeError, twoReds) \<and>
   handleClick 2 0 twoReds = Inr twoReds \<and>
   handleClick 2 0 twoRedsHovered
     = Inl (TypeError,
            \<lparr>ncolors = 1, width = 2, height = 1, color_vocab = [''red''],
             hoverCluster = [], score = 4, numCells = 0,
             board = [[\<lparr>color = Null, cluster = []\<rparr>], [\<lparr>color = Null, cluster = []\<rparr>]],
             scoreLeft = 5000, scoreTotal = 5004, hoverScore = 0\<rparr>) \<and>
   score twoRedsHovered = 0 \<and> numCells twoRedsHovered = 2"
  by code_simp

text \<open>
  C9, amended: on a board of \<open>width\<close> columns of \<open>height\<close> cells, at a coordinate off the
  board, \<open>handleHover\<close> throws the TypeError of reading a property of \<^verbatim>\<open>undefined\<close>
  before it changes anything. \<open>handleClick\<close> returns normally, changing nothing, when
  fewer than two cells are hovered. When two or more cells are hovered it does all its
  work first: the loop over the columns and \<open>updateGame\<close> run to their end, the score
  grows by the square of the number of hovered cells, no cell is hovered any more; then
  its last step, \<open>handleHover\<close> at the coordinate, throws the TypeError, and the session
  that is left is the one \<open>updateGame\<close> returned, not the one before the click.
\<close>

theorem handleHover_outside:
  assumes "wellShaped g"
    and "\<not> (0 \<le> ox \<and> ox < int (width g) \<and> 0 \<le> oy \<and> oy < int (height g))"
  shows "handleHover ox oy g = Inl (TypeError, g) \<and>
         (length (hoverCluster g) < 2 \<longrightarrow> handleClick ox oy g = Inr g) \<and>
         (2 \<le> length (hoverCluster g) \<longrightarrow>
            (\<exists>g'. updateGame (clickColumns g) = Inr g' \<and>
                  handleClick ox oy g = Inl (TypeError, g') \<and> g' \<noteq> g \<and>
                  hoverCluster g' = [] \<and>
                  score g' = score g + int (length (hoverCluster g)) * int (length (hoverCluster g)) \<and>
                  numCells g' = numCells (clickColumns g) \<and>
                  map (map color) (board g') = map (map color) (board (clickColumns g))))"
proof -
  have off: "cellAt (board g') ox oy = None"
    if "wellShaped g'" "width g' = width g" "height g' = height g" for g'
    using that assms(2) by (auto simp: cellAt_def wellShaped_def list_all_length)
  from off [OF assms(1)] have h: "handleHover ox oy g = Inl (TypeError, g)"
    "length (hoverCluster g) < 2 \<longrightarrow> handleClick ox oy g = Inr g"
    by (simp_all add: handleHover_def handleClick_def)
  have "\<exists>g'. updateGame (clickColumns g) = Inr g' \<and>
                  handleClick ox oy g = Inl (TypeError, g') \<and> g' \<noteq> g \<and>
                  hoverCluster g' = [] \<and>
                  score g' = score g + int (length (hoverCluster g)) * int (length (hoverCluster g)) \<and>
                  numCells g' = numCells (clickColumns g) \<and>
                  map (map color) (board g') = map (map color) (board (clickColumns g))"
    if two: "2 \<le> length (hoverCluster g)"
  proof -
    have wc: "wellShaped (clickColumns g)"
      using assms(1) by (rule clickColumns_wellShaped)
    from updateGame_returns [OF wc] obtain g'
      where u: "updateGame (clickColumns g) = Inr g'" and ws': "wellShaped g'"
        and wh: "width g' = width g" "height g' = height g"
        and hc: "hoverCluster g' = []" and nc: "numCells g' = numCells (clickColumns g)"
        and sc: "score g' = score g + int (length (hoverCluster g)) * int (length (hoverCluster g))"
        and co: "\<forall>p. inGrid (clickColumns g) p \<longrightarrow> colourAt g' p = colourAt (clickColumns g) p"
      by auto
    from off [OF ws' wh] have "handleHover ox oy g' = Inl (TypeError, g')"
      by (simp add: handleHover_def)
    with u two have "handleClick ox oy g = Inl (TypeError, g')"
      by (simp add: handleClick_def)
    moreover from hc two have "g' \<noteq> g" by auto
    moreover have "map (map color) (board g') = map (map color) (board (clickColumns g))"
      using wc ws' wh co by (intro colours_eq) simp_all
    ultimately show ?thesis using u hc sc nc by blast
  qed
  with h show ?thesis by blast
qed

theorem handleHover_outside_witness:
  "wellShaped twoReds \<and> wellShaped twoRedsHovered \<and>
   \<not> (0 \<le> (2::int) \<and> (2::int) < int (width twoReds) \<and> 0 \<le> (0::int) \<and> (0::int) < int (height twoReds)) \<and>
   \<not> (0 \<le> (2::int) \<and> (2::int) < int (width twoRedsHovered) \<and> 0 \<le> (0::int) \<and> (0::int) < int (height twoRedsHovered)) \<and>
   handleHover 2 0 twoReds = Inl (TypeError, twoReds) \<and>
   length (hoverCluster twoReds) < 2 \<and> handleClick 2 0 twoReds = Inr twoReds \<and>
   2 \<le> length (hoverCluster twoRedsHovered) \<and>
   (\<exists>g'. updateGame (clickColumns twoRedsHovered) = Inr g' \<and>
         handleClick 2 0 twoRedsHovered = Inl (TypeError, g') \<and> g' \<noteq> twoRedsHovered \<and>
         hoverCluster g' = [] \<and> score g' = 4)"
proof -
  have h: "wellShaped twoReds"
    "\<not> (0 \<le> (2::int) \<and> (2::int) < int (width twoReds) \<and> 0 \<le> (0::int) \<and> (0::int) < int (height twoReds))"
    by (simp_all add: twoReds_def wellShaped_def)
  have k: "wellShaped twoRedsHovered"
    "\<not> (0 \<le> (2::int) \<and> (2::int) < int (width twoRedsHovered) \<and> 0 \<le> (0::int) \<and> (0::int) < int (height twoRedsHovered))"
    by (simp_all add: twoRedsHovered_def twoReds_def wellShaped_def)
  have l: "length (hoverCluster twoReds) < 2" by (simp add: twoReds_def)
  have m: "2 \<le> length (hoverCluster twoRedsHovered)" "score twoRedsHovered = 0"
    "length (hoverCluster twoRedsHovered) = 2"
    by (simp_all add: twoRedsHovered_def twoReds_def)
  from handleHover_outside [OF h] l have a: "handleHover 2 0 twoReds = Inl (TypeError, twoReds)"
    "handleClick 2 0 twoReds = Inr twoReds"
    by blast+
  from handleHover_outside [OF k] m(1)
  obtain g' where "updateGame (clickColumns twoRedsHovered) = Inr g'"
    "handleClick 2 0 twoRedsHovered = Inl (TypeError, g')" "g' \<noteq> twoRedsHovered"
    "hoverCluster g' = []"
    "score g' = score twoRedsHovered + int (length (hoverCluster twoRedsHovered)) * int (length (hoverCluster twoRedsHovered))"
    by blast
  then have "\<exists>g'. updateGame (clickColumns twoRedsHovered) = Inr g' \<and>
         handleClick 2 0 twoRedsHovered = Inl (TypeError, g') \<and> g' \<noteq> twoRedsHovered \<and>
         hoverCluster g' = [] \<and> score g' = 4"
    by (auto simp: m)
  with a h k l m(1) show ?thesis by blast
qed





end
